theory Spec2Isabelle
  imports Main "HOL-Library.Word"
begin

unbundle bit_operations_syntax

section \<open>Machine types and status values\<close>

text \<open>
  Bytes are \<open>uint8_t\<close>, decoded integers are \<open>uint64_t\<close>; both wrap around.
  Buffer positions and sizes (\<open>size_t\<close>) are natural numbers: a cursor only moves
  forward from a position inside a buffer that exists in memory, so it stays far below
  \<open>2 ^ 64\<close>; where the source adds a decoded 64-bit value to a position, the
  wrap-around is written out.
\<close>

type_synonym u8 = "8 word"
type_synonym u32 = "32 word"
type_synonym u64 = "64 word"

text \<open>One constructor per failure message of \<open>lib/jxl/icc_codec.cc\<close>.\<close>

datatype error =
    ResultNotEmpty        \<comment> \<open>"result must be empty initially"\<close>
  | OutOfBounds           \<comment> \<open>"Out of bounds"\<close>
  | Expected32Bit         \<comment> \<open>"32-bit value expected"\<close>
  | NotAllCommandsUsed    \<comment> \<open>"Not all commands used"\<close>
  | NotAllDataUsed        \<comment> \<open>"Not all data used"\<close>
  | InvalidResultSize     \<comment> \<open>"Invalid result size"\<close>
  | UnknownTagcode        \<comment> \<open>"Unknown tagcode"\<close>
  | InvalidWidth          \<comment> \<open>"Invalid width"\<close>
  | InvalidOrder          \<comment> \<open>"Invalid order"\<close>
  | InvalidStride         \<comment> \<open>"Invalid stride"\<close>
  | UnknownCommand        \<comment> \<open>"Unknown command"\<close>
  | MalformedICC          \<comment> \<open>"Malformed ICC"\<close>
  | DecodedICCTooLarge    \<comment> \<open>"Decoded ICC is too large"\<close>
  | TooLargeEncodedProfile \<comment> \<open>"Too large encoded profile"\<close>
  | CorruptedStream       \<comment> \<open>"Corrupted stream"\<close>
  | CorruptedICCProfile   \<comment> \<open>"Corrupted ICC profile"\<close>
  | EnsureFailed          \<comment> \<open>\<open>JXL_ENSURE\<close> violated\<close>
  | NotEnoughBytes        \<comment> \<open>\<open>JXL_NOT_ENOUGH_BYTES\<close>\<close>

type_synonym status = "error + unit"

abbreviation OK :: status where
  "OK \<equiv> Inr ()"

section \<open>VarInt decoding (\<open>lib/jxl/icc_codec.cc\<close>)\<close>

text \<open>
  The \<open>for\<close> loop of \<open>DecodeVarInt\<close>; the state is the loop counter \<open>i\<close> and the
  accumulator \<open>ret\<close>. A \<open>break\<close> leaves \<open>i\<close> at the index of the last byte read.
\<close>

function DecodeVarInt_loop :: "u8 list \<Rightarrow> nat \<Rightarrow> nat \<Rightarrow> u64 \<Rightarrow> nat \<times> u64" where
  "DecodeVarInt_loop input pos i ret =
     (if pos + i < length input \<and> i < 10 then
        (let ret' = ret OR push_bit (7 * i) (ucast (input ! (pos + i) AND 127))
         in if input ! (pos + i) AND 128 = 0 then (i, ret')
            else DecodeVarInt_loop input pos (i + 1) ret')
      else (i, ret))"
  by pat_completeness auto
termination
  by (relation "measure (\<lambda>(input, pos, i, ret). 10 - i)") auto

declare DecodeVarInt_loop.simps [simp del]

text \<open>Returns the decoded value and the updated \<open>*pos\<close>.\<close>

definition DecodeVarInt :: "u8 list \<Rightarrow> nat \<Rightarrow> u64 \<times> nat" where
  "DecodeVarInt input pos =
     (case DecodeVarInt_loop input pos 0 0 of (i, ret) \<Rightarrow> (ret, pos + (i + 1)))"

text \<open>
  The value of a byte sequence read as unsigned LEB128: seven payload bits per byte,
  least significant group first.
\<close>

fun leb128 :: "u8 list \<Rightarrow> nat" where
  "leb128 [] = 0"
| "leb128 (b # bs) = unat (b AND 127) + 128 * leb128 bs"

section \<open>Range checks\<close>

text \<open>
  Modelled from the spec: \<open>CheckIs32Bit\<close> and \<open>CheckOutOfBounds\<close> are declared in
  \<open>lib/jxl/icc_codec_common.h\<close>, which is not among the sources. The first accepts
  exactly the values below \<open>2 ^ 32\<close>; the second accepts \<open>a + b \<le> size\<close>, computed
  in 64 bits with the overflow of the sum rejected.
\<close>

definition CheckIs32Bit :: "u64 \<Rightarrow> status" where
  "CheckIs32Bit v = (if v AND NOT 0xFFFFFFFF \<noteq> 0 then Inl Expected32Bit else OK)"

definition CheckOutOfBounds :: "nat \<Rightarrow> u64 \<Rightarrow> nat \<Rightarrow> status" where
  "CheckOutOfBounds a b sz =
     (let pos = (a + unat b) mod 2 ^ 64
      in if pos > sz then Inl OutOfBounds
         else if pos < a then Inl OutOfBounds
         else OK)"

section \<open>Preamble check\<close>

definition CheckPreamble :: "u8 list \<Rightarrow> nat \<Rightarrow> status" where
  "CheckPreamble data enc_size =
     (let sz = length data in
      case DecodeVarInt data 0 of (osize, pos) \<Rightarrow>
      if CheckIs32Bit osize \<noteq> OK then CheckIs32Bit osize
      else if pos \<ge> sz then Inl OutOfBounds
      else case DecodeVarInt data pos of (csize, pos) \<Rightarrow>
      if CheckIs32Bit csize \<noteq> OK then CheckIs32Bit csize
      else if CheckOutOfBounds pos csize sz \<noteq> OK then CheckOutOfBounds pos csize sz
      else if unat (osize + 65536) < enc_size then Inl MalformedICC
      else if unat osize > 2 ^ 28 then Inl DecodedICCTooLarge
      else OK)"



section \<open>Decoding of predicted ICC profiles (\<open>lib/jxl/icc_codec.cc\<close>)\<close>

text \<open>
  \<open>UnpredictICC\<close> uses constants, keyword tables and helpers that are declared in
  \<open>lib/jxl/icc_codec_common.h\<close>, which is not among the sources. They are parameters
  of the model, collected in one record: the wire constants and table sizes as numbers,
  the keyword tables as functions from the index, the 128-byte header prediction as a
  function from the index to the byte, and the helpers that predict or append bytes as
  functions. Growing a buffer is taken to succeed.
\<close>

type_synonym Tag = "u8 list"

record icc_codec_common =
  kICCHeaderSize :: nat
  kCommandTagUnknown :: nat
  kCommandTagTRC :: nat
  kCommandTagXYZ :: nat
  kCommandTagStringFirst :: nat
  kCommandInsert :: nat
  kCommandShuffle2 :: nat
  kCommandShuffle4 :: nat
  kCommandPredict :: nat
  kCommandXYZ :: nat
  kCommandTypeStartFirst :: nat
  kFlagBitOffset :: nat
  kFlagBitSize :: nat
  kNumTagStrings :: nat
  kTagStrings :: "nat \<Rightarrow> Tag"
  kNumTypeStrings :: nat
  kTypeStrings :: "nat \<Rightarrow> Tag"
  kRtrcTag :: Tag
  kGtrcTag :: Tag
  kBtrcTag :: Tag
  kRxyzTag :: Tag
  kGxyzTag :: Tag
  kBxyzTag :: Tag
  kKxyzTag :: Tag
  kWtptTag :: Tag
  kBkptTag :: Tag
  kLumiTag :: Tag
  kXyz_Tag :: Tag
  ICCInitialHeaderPrediction :: "u64 \<Rightarrow> nat \<Rightarrow> u8"
  ICCPredictHeader :: "u8 list \<Rightarrow> (nat \<Rightarrow> u8) \<Rightarrow> nat \<Rightarrow> nat \<Rightarrow> u8"
  LinearPredictICCValue :: "u8 list \<Rightarrow> nat \<Rightarrow> nat \<Rightarrow> u64 \<Rightarrow> nat \<Rightarrow> nat \<Rightarrow> u8"
  DecodeKeyword :: "u8 list \<Rightarrow> nat \<Rightarrow> Tag"
  AppendKeyword :: "Tag \<Rightarrow> u8 list \<Rightarrow> u8 list"
  AppendUint32 :: "u64 \<Rightarrow> u8 list \<Rightarrow> u8 list"

text \<open>
  The variables of \<open>UnpredictICC\<close> that its loops update: the output buffer
  \<open>result\<close>, the cursor \<open>pos\<close> in the data stream and the cursor \<open>cpos\<close> in the
  commands stream.
\<close>

record unpredict_state =
  st_result :: "u8 list"
  st_pos :: nat
  st_cpos :: nat

text \<open>
  A loop body either makes the function return (\<open>Return\<close>) or lets it go on
  (\<open>Proceed\<close>). A failure carries the output buffer as it is at that moment.
\<close>

datatype 'a flow = Return 'a | Proceed 'a

type_synonym 'a attempt = "(error \<times> u8 list) + 'a"

definition fail :: "error \<Rightarrow> unpredict_state \<Rightarrow> 'a attempt" where
  "fail e s = Inl (e, st_result s)"

text \<open>\<open>Shuffle\<close>: the transposition loop, then the copy back into \<open>data\<close>.\<close>

function Shuffle_loop :: "u8 list \<Rightarrow> nat \<Rightarrow> nat \<Rightarrow> nat \<Rightarrow> nat \<Rightarrow> nat \<Rightarrow> u8 list \<Rightarrow> u8 list" where
  "Shuffle_loop data sz height i s j res =
     (if i < sz then
        (let res' = res @ [data ! j]; j' = j + height
         in if j' \<ge> sz then Shuffle_loop data sz height (i + 1) (s + 1) (s + 1) res'
            else Shuffle_loop data sz height (i + 1) s j' res')
      else res)"
  by pat_completeness auto
termination
  by (relation "measure (\<lambda>(data, sz, height, i, s, j, res). sz - i)") auto

declare Shuffle_loop.simps [simp del]

definition Shuffle :: "u8 list \<Rightarrow> nat \<Rightarrow> nat \<Rightarrow> u8 list" where
  "Shuffle data sz width = Shuffle_loop data sz ((sz + width - 1) div width) 0 0 0 []"


text \<open>The header loop, \<open>for (i = 0; i <= kICCHeaderSize; i++)\<close>.\<close>

function header_loop ::
  "icc_codec_common \<Rightarrow> u8 list \<Rightarrow> u64 \<Rightarrow> nat \<Rightarrow> nat \<Rightarrow> (nat \<Rightarrow> u8) \<Rightarrow> unpredict_state
   \<Rightarrow> unpredict_state flow attempt" where
  "header_loop c enc osize commands_end i header s =
     (if i \<le> kICCHeaderSize c then
        (if length (st_result s) = unat osize then
           (if st_cpos s \<noteq> commands_end then fail NotAllCommandsUsed s
            else if st_pos s \<noteq> length enc then fail NotAllDataUsed s
            else Inr (Return s))
         else if i = kICCHeaderSize c then Inr (Proceed s)
         else
           (let header' = ICCPredictHeader c (st_result s) header i
            in if st_pos s \<ge> length enc then fail OutOfBounds s
               else header_loop c enc osize commands_end (i + 1) header'
                      (s\<lparr>st_result := st_result s @ [enc ! st_pos s + header' i],
                         st_pos := st_pos s + 1\<rparr>)))
      else Inr (Proceed s))"
  by pat_completeness auto
termination
  by (relation "measure (\<lambda>(c, enc, osize, commands_end, i, header, s). kICCHeaderSize c + 1 - i)") auto

declare header_loop.simps [simp del]

text \<open>
  The body of the tag list loop, in the order of the source: the keyword selected by the
  tag code, the tag start, the tag size, and the two extra entries of the TRC and XYZ
  codes.
\<close>

definition tag_select ::
  "icc_codec_common \<Rightarrow> u8 list \<Rightarrow> u8 \<Rightarrow> unpredict_state \<Rightarrow> (Tag \<times> unpredict_state) attempt" where
  "tag_select c enc tagcode s =
     (if unat tagcode = kCommandTagUnknown c then
        (if CheckOutOfBounds (st_pos s) 4 (length enc) \<noteq> OK then fail OutOfBounds s
         else Inr (DecodeKeyword c enc (st_pos s), s\<lparr>st_pos := st_pos s + 4\<rparr>))
      else if unat tagcode = kCommandTagTRC c then Inr (kRtrcTag c, s)
      else if unat tagcode = kCommandTagXYZ c then Inr (kRxyzTag c, s)
      else if unat tagcode < kCommandTagStringFirst c
              \<or> unat tagcode - kCommandTagStringFirst c \<ge> kNumTagStrings c
           then fail UnknownTagcode s
      else Inr (kTagStrings c (unat tagcode - kCommandTagStringFirst c), s))"

definition tag_start ::
  "icc_codec_common \<Rightarrow> u8 list \<Rightarrow> nat \<Rightarrow> u8 \<Rightarrow> u64 \<Rightarrow> u64 \<Rightarrow> unpredict_state
   \<Rightarrow> (u64 \<times> unpredict_state) attempt" where
  "tag_start c enc commands_end command prevtagstart prevtagsize s =
     (if unat command AND kFlagBitOffset c \<noteq> 0 then
        (if st_cpos s \<ge> commands_end then fail OutOfBounds s
         else case DecodeVarInt enc (st_cpos s) of (tagstart, cpos') \<Rightarrow>
                Inr (tagstart, s\<lparr>st_cpos := cpos'\<rparr>))
      else if CheckIs32Bit prevtagstart \<noteq> OK then fail Expected32Bit s
      else Inr (prevtagstart + prevtagsize, s))"

definition tag_size ::
  "icc_codec_common \<Rightarrow> u8 list \<Rightarrow> nat \<Rightarrow> u8 \<Rightarrow> u64 \<Rightarrow> unpredict_state
   \<Rightarrow> (u64 \<times> unpredict_state) attempt" where
  "tag_size c enc commands_end command tagsize s =
     (if unat command AND kFlagBitSize c \<noteq> 0 then
        (if st_cpos s \<ge> commands_end then fail OutOfBounds s
         else case DecodeVarInt enc (st_cpos s) of (tagsize', cpos') \<Rightarrow>
                Inr (tagsize', s\<lparr>st_cpos := cpos'\<rparr>))
      else Inr (tagsize, s))"

definition tag_extra ::
  "icc_codec_common \<Rightarrow> u8 \<Rightarrow> u64 \<Rightarrow> u64 \<Rightarrow> unpredict_state \<Rightarrow> unpredict_state attempt" where
  "tag_extra c tagcode tagstart tagsize s =
     (let s1 =
        (if unat tagcode = kCommandTagTRC c then
           s\<lparr>st_result :=
               AppendUint32 c tagsize (AppendUint32 c tagstart (AppendKeyword c (kBtrcTag c)
                 (AppendUint32 c tagsize (AppendUint32 c tagstart (AppendKeyword c (kGtrcTag c)
                   (st_result s))))))\<rparr>
         else s)
      in if unat tagcode = kCommandTagXYZ c then
           (if CheckIs32Bit (tagstart + tagsize * 2) \<noteq> OK then fail Expected32Bit s1
            else Inr (s1\<lparr>st_result :=
               AppendUint32 c tagsize (AppendUint32 c (tagstart + tagsize * 2)
                 (AppendKeyword c (kBxyzTag c)
                   (AppendUint32 c tagsize (AppendUint32 c (tagstart + tagsize)
                     (AppendKeyword c (kGxyzTag c) (st_result s1))))))\<rparr>))
         else Inr s1)"

definition tag_step ::
  "icc_codec_common \<Rightarrow> u8 list \<Rightarrow> nat \<Rightarrow> u64 \<Rightarrow> u64 \<Rightarrow> unpredict_state
   \<Rightarrow> (u64 \<times> u64 \<times> unpredict_state) flow attempt" where
  "tag_step c enc commands_end prevtagstart prevtagsize s =
     (let command = enc ! st_cpos s;
          s0 = s\<lparr>st_cpos := st_cpos s + 1\<rparr>;
          tagcode = command AND 63
      in if tagcode = 0 then Inr (Return (prevtagstart, prevtagsize, s0))
         else case tag_select c enc tagcode s0 of Inl e \<Rightarrow> Inl e | Inr (tag, s1) \<Rightarrow>
           (let s2 = s1\<lparr>st_result := AppendKeyword c tag (st_result s1)\<rparr>;
                tagsize0 =
                  (if tag = kRxyzTag c \<or> tag = kGxyzTag c \<or> tag = kBxyzTag c
                      \<or> tag = kKxyzTag c \<or> tag = kWtptTag c \<or> tag = kBkptTag c
                      \<or> tag = kLumiTag c
                   then 20 else prevtagsize)
            in case tag_start c enc commands_end command prevtagstart prevtagsize s2 of
                 Inl e \<Rightarrow> Inl e
               | Inr (tagstart, s3) \<Rightarrow>
                 if CheckIs32Bit tagstart \<noteq> OK then fail Expected32Bit s3
                 else
                   (let s4 = s3\<lparr>st_result := AppendUint32 c tagstart (st_result s3)\<rparr>
                    in case tag_size c enc commands_end command tagsize0 s4 of
                         Inl e \<Rightarrow> Inl e
                       | Inr (tagsize, s5) \<Rightarrow>
                         if CheckIs32Bit tagsize \<noteq> OK then fail Expected32Bit s5
                         else
                           (let s6 = s5\<lparr>st_result := AppendUint32 c tagsize (st_result s5)\<rparr>
                            in case tag_extra c tagcode tagstart tagsize s6 of
                                 Inl e \<Rightarrow> Inl e
                               | Inr s7 \<Rightarrow> Inr (Proceed (tagstart, tagsize, s7))))))"

lemma DecodeVarInt_snd_gt: "pos < snd (DecodeVarInt input pos)"
  by (cases "DecodeVarInt_loop input pos 0 0") (simp add: DecodeVarInt_def)

lemma tag_select_cpos: "tag_select c enc tagcode s = Inr (tag, s') \<Longrightarrow> st_cpos s' = st_cpos s"
  by (auto simp: tag_select_def fail_def split: if_splits)

lemma tag_start_cpos:
  "tag_start c enc ce command a b s = Inr (v, s') \<Longrightarrow> st_cpos s \<le> st_cpos s'"
  using DecodeVarInt_snd_gt [of "st_cpos s" enc]
  by (auto simp: tag_start_def fail_def split: if_splits prod.splits)

lemma tag_size_cpos:
  "tag_size c enc ce command a s = Inr (v, s') \<Longrightarrow> st_cpos s \<le> st_cpos s'"
  using DecodeVarInt_snd_gt [of "st_cpos s" enc]
  by (auto simp: tag_size_def fail_def split: if_splits prod.splits)

lemma tag_extra_cpos: "tag_extra c tagcode a b s = Inr s' \<Longrightarrow> st_cpos s' = st_cpos s"
  by (auto simp: tag_extra_def fail_def Let_def split: if_splits)

lemma tag_step_cpos:
  assumes "tag_step c enc ce a b s = Inr (Proceed (a', b', s'))"
  shows "st_cpos s < st_cpos s'"
  using assms
  apply (simp add: tag_step_def Let_def fail_def split: if_splits sum.splits prod.splits)
  apply (auto dest!: tag_select_cpos tag_start_cpos tag_size_cpos tag_extra_cpos)
  done

function tag_loop ::
  "icc_codec_common \<Rightarrow> u8 list \<Rightarrow> u64 \<Rightarrow> nat \<Rightarrow> u64 \<Rightarrow> u64 \<Rightarrow> unpredict_state
   \<Rightarrow> unpredict_state attempt" where
  "tag_loop c enc osize commands_end prevtagstart prevtagsize s =
     (if length (st_result s) > unat osize then fail InvalidResultSize s
      else if st_cpos s > commands_end then fail OutOfBounds s
      else if st_cpos s = commands_end then Inr s
      else case tag_step c enc commands_end prevtagstart prevtagsize s of
             Inl e \<Rightarrow> Inl e
           | Inr (Return (a, b, s')) \<Rightarrow> Inr s'
           | Inr (Proceed (tagstart, tagsize, s')) \<Rightarrow>
               tag_loop c enc osize commands_end tagstart tagsize s')"
  by pat_completeness auto
termination
  by (relation "measure (\<lambda>(c, enc, osize, commands_end, a, b, s). commands_end - st_cpos s)")
     (auto dest: tag_step_cpos)

declare tag_loop.simps [simp del]

text \<open>The commands of the main content loop, one definition per branch.\<close>

definition command_insert ::
  "u8 list \<Rightarrow> nat \<Rightarrow> unpredict_state \<Rightarrow> unpredict_state attempt" where
  "command_insert enc commands_end s =
     (if st_cpos s \<ge> commands_end then fail OutOfBounds s
      else case DecodeVarInt enc (st_cpos s) of (num, cpos') \<Rightarrow>
        (let s1 = s\<lparr>st_cpos := cpos'\<rparr>
         in if CheckOutOfBounds (st_pos s1) num (length enc) \<noteq> OK then fail OutOfBounds s1
            else Inr (s1\<lparr>st_result :=
                          st_result s1 @ map (\<lambda>i. enc ! (st_pos s1 + i)) [0..<unat num],
                        st_pos := st_pos s1 + unat num\<rparr>)))"

definition command_shuffle ::
  "icc_codec_common \<Rightarrow> u8 list \<Rightarrow> nat \<Rightarrow> u8 \<Rightarrow> unpredict_state \<Rightarrow> unpredict_state attempt" where
  "command_shuffle c enc commands_end command s =
     (if st_cpos s \<ge> commands_end then fail OutOfBounds s
      else case DecodeVarInt enc (st_cpos s) of (num, cpos') \<Rightarrow>
        (let s1 = s\<lparr>st_cpos := cpos'\<rparr>
         in if CheckOutOfBounds (st_pos s1) num (length enc) \<noteq> OK then fail OutOfBounds s1
            else
              (let shuffled = map (\<lambda>i. enc ! (st_pos s1 + i)) [0..<unat num];
                   shuffled' =
                     (if unat command = kCommandShuffle2 c then Shuffle shuffled (unat num) 2
                      else if unat command = kCommandShuffle4 c then Shuffle shuffled (unat num) 4
                      else shuffled)
               in Inr (s1\<lparr>st_result :=
                             st_result s1 @ map (\<lambda>i. shuffled' ! i) [0..<unat num],
                           st_pos := st_pos s1 + unat num\<rparr>))))"

function predict_loop ::
  "icc_codec_common \<Rightarrow> u8 list \<Rightarrow> nat \<Rightarrow> u64 \<Rightarrow> nat \<Rightarrow> nat \<Rightarrow> nat \<Rightarrow> nat \<Rightarrow> u8 list \<Rightarrow> u8 list" where
  "predict_loop c shuffled start stride width order' i num res =
     (if i < num then
        (let predicted = LinearPredictICCValue c res start i stride width order'
         in predict_loop c shuffled start stride width order' (i + 1) num
              (res @ [predicted + shuffled ! i]))
      else res)"
  by pat_completeness auto
termination
  by (relation "measure (\<lambda>(c, shuffled, start, stride, width, order', i, num, res). num - i)") auto

declare predict_loop.simps [simp del]

definition predict_stride ::
  "u8 list \<Rightarrow> nat \<Rightarrow> u8 \<Rightarrow> nat \<Rightarrow> unpredict_state \<Rightarrow> (u64 \<times> unpredict_state) attempt" where
  "predict_stride enc commands_end flags width s =
     (if flags AND 16 \<noteq> 0 then
        (if st_cpos s \<ge> commands_end then fail OutOfBounds s
         else case DecodeVarInt enc (st_cpos s) of (stride, cpos') \<Rightarrow>
           if unat stride < width then fail InvalidStride (s\<lparr>st_cpos := cpos'\<rparr>)
           else Inr (stride, s\<lparr>st_cpos := cpos'\<rparr>))
      else Inr (word_of_nat width, s))"

definition predict_data ::
  "icc_codec_common \<Rightarrow> u8 list \<Rightarrow> nat \<Rightarrow> nat \<Rightarrow> nat \<Rightarrow> u64 \<Rightarrow> unpredict_state
   \<Rightarrow> unpredict_state attempt" where
  "predict_data c enc commands_end width order' stride s =
     (if st_cpos s \<ge> commands_end then fail OutOfBounds s
      else case DecodeVarInt enc (st_cpos s) of (num, cpos') \<Rightarrow>
        (let s1 = s\<lparr>st_cpos := cpos'\<rparr>
         in if CheckOutOfBounds (st_pos s1) num (length enc) \<noteq> OK then fail OutOfBounds s1
            else
              (let shuffled = map (\<lambda>i. enc ! (st_pos s1 + i)) [0..<unat num];
                   shuffled' = (if width > 1 then Shuffle shuffled (unat num) width
                                else shuffled);
                   start = length (st_result s1)
               in Inr (s1\<lparr>st_result :=
                             predict_loop c shuffled' start stride width order' 0 (unat num)
                               (st_result s1),
                           st_pos := st_pos s1 + unat num\<rparr>))))"

definition command_predict ::
  "icc_codec_common \<Rightarrow> u8 list \<Rightarrow> nat \<Rightarrow> unpredict_state \<Rightarrow> unpredict_state attempt" where
  "command_predict c enc commands_end s =
     (if CheckOutOfBounds (st_cpos s) 2 commands_end \<noteq> OK then fail OutOfBounds s
      else
        (let flags = enc ! st_cpos s;
             s1 = s\<lparr>st_cpos := st_cpos s + 1\<rparr>;
             width = unat (flags AND 3) + 1
         in if width = 3 then fail InvalidWidth s1
            else
              (let order' = unat (drop_bit 2 (flags AND 12))
               in if order' = 3 then fail InvalidOrder s1
                  else case predict_stride enc commands_end flags width s1 of
                      Inl e \<Rightarrow> Inl e
                    | Inr (stride, s2) \<Rightarrow>
                        if st_result s2 = [] \<or> (length (st_result s2) - 1) div 4 < unat stride
                        then fail InvalidStride s2
                        else predict_data c enc commands_end width order' stride s2)))"

definition command_xyz ::
  "icc_codec_common \<Rightarrow> u8 list \<Rightarrow> unpredict_state \<Rightarrow> unpredict_state attempt" where
  "command_xyz c enc s =
     (let s1 = s\<lparr>st_result := AppendKeyword c (kXyz_Tag c) (st_result s) @ replicate 4 0\<rparr>
      in if CheckOutOfBounds (st_pos s1) 12 (length enc) \<noteq> OK then fail OutOfBounds s1
         else Inr (s1\<lparr>st_result := st_result s1 @ map (\<lambda>i. enc ! (st_pos s1 + i)) [0..<12],
                     st_pos := st_pos s1 + 12\<rparr>))"

definition command_type ::
  "icc_codec_common \<Rightarrow> u8 \<Rightarrow> unpredict_state \<Rightarrow> unpredict_state attempt" where
  "command_type c command s =
     Inr (s\<lparr>st_result :=
            AppendKeyword c (kTypeStrings c (unat command - kCommandTypeStartFirst c))
              (st_result s) @ replicate 4 0\<rparr>)"

definition main_step ::
  "icc_codec_common \<Rightarrow> u8 list \<Rightarrow> nat \<Rightarrow> unpredict_state \<Rightarrow> unpredict_state attempt" where
  "main_step c enc commands_end s =
     (let command = enc ! st_cpos s;
          s0 = s\<lparr>st_cpos := st_cpos s + 1\<rparr>
      in if unat command = kCommandInsert c then command_insert enc commands_end s0
         else if unat command = kCommandShuffle2 c \<or> unat command = kCommandShuffle4 c
              then command_shuffle c enc commands_end command s0
         else if unat command = kCommandPredict c then command_predict c enc commands_end s0
         else if unat command = kCommandXYZ c then command_xyz c enc s0
         else if unat command \<ge> kCommandTypeStartFirst c
                 \<and> unat command < kCommandTypeStartFirst c + kNumTypeStrings c
              then command_type c command s0
         else fail UnknownCommand s0)"

lemma DecodeVarInt_gt: "DecodeVarInt input pos = (v, pos') \<Longrightarrow> pos < pos'"
  using DecodeVarInt_snd_gt [of pos input] by simp

lemma command_insert_cpos: "command_insert enc ce s = Inr s' \<Longrightarrow> st_cpos s \<le> st_cpos s'"
  by (auto simp: command_insert_def fail_def Let_def split: if_splits prod.splits
      dest!: DecodeVarInt_gt)

lemma command_shuffle_cpos: "command_shuffle c enc ce cmd s = Inr s' \<Longrightarrow> st_cpos s \<le> st_cpos s'"
  by (auto simp: command_shuffle_def fail_def Let_def split: if_splits prod.splits
      dest!: DecodeVarInt_gt)

lemma predict_stride_cpos:
  "predict_stride enc ce flags width s = Inr (stride, s') \<Longrightarrow> st_cpos s \<le> st_cpos s'"
  by (auto simp: predict_stride_def fail_def split: if_splits prod.splits dest!: DecodeVarInt_gt)

lemma predict_data_cpos:
  "predict_data c enc ce width ord stride s = Inr s' \<Longrightarrow> st_cpos s \<le> st_cpos s'"
  by (auto simp: predict_data_def fail_def Let_def split: if_splits prod.splits
      dest!: DecodeVarInt_gt)

lemma command_predict_cpos: "command_predict c enc ce s = Inr s' \<Longrightarrow> st_cpos s \<le> st_cpos s'"
  by (auto simp: command_predict_def fail_def Let_def split: if_splits prod.splits sum.splits
      dest!: predict_stride_cpos predict_data_cpos)

lemma command_xyz_cpos: "command_xyz c enc s = Inr s' \<Longrightarrow> st_cpos s' = st_cpos s"
  by (auto simp: command_xyz_def fail_def Let_def split: if_splits)

lemma command_type_cpos: "command_type c cmd s = Inr s' \<Longrightarrow> st_cpos s' = st_cpos s"
  by (auto simp: command_type_def)

lemma main_step_cpos:
  assumes "main_step c enc ce s = Inr s'"
  shows "st_cpos s < st_cpos s'"
  using assms
  by (auto simp: main_step_def Let_def fail_def split: if_splits
      dest!: command_insert_cpos command_shuffle_cpos command_predict_cpos
             command_xyz_cpos command_type_cpos)

function main_loop ::
  "icc_codec_common \<Rightarrow> u8 list \<Rightarrow> u64 \<Rightarrow> nat \<Rightarrow> unpredict_state \<Rightarrow> unpredict_state attempt" where
  "main_loop c enc osize commands_end s =
     (if length (st_result s) > unat osize then fail InvalidResultSize s
      else if st_cpos s > commands_end then fail OutOfBounds s
      else if st_cpos s = commands_end then Inr s
      else case main_step c enc commands_end s of
             Inl e \<Rightarrow> Inl e
           | Inr s' \<Rightarrow> main_loop c enc osize commands_end s')"
  by pat_completeness auto
termination
  by (relation "measure (\<lambda>(c, enc, osize, commands_end, s). commands_end - st_cpos s)")
     (auto dest: main_step_cpos)

declare main_loop.simps [simp del]

definition tag_list ::
  "icc_codec_common \<Rightarrow> u8 list \<Rightarrow> u64 \<Rightarrow> nat \<Rightarrow> unpredict_state \<Rightarrow> unpredict_state attempt" where
  "tag_list c enc osize commands_end s =
     (case DecodeVarInt enc (st_cpos s) of (numtags, cpos') \<Rightarrow>
        (let s1 = s\<lparr>st_cpos := cpos'\<rparr>
         in if numtags \<noteq> 0 then
              (let numtags' = numtags - 1
               in if CheckIs32Bit numtags' \<noteq> OK then fail Expected32Bit s1
                  else tag_loop c enc osize commands_end
                         (word_of_nat (kICCHeaderSize c) + numtags' * 12) 0
                         (s1\<lparr>st_result := AppendUint32 c numtags' (st_result s1)\<rparr>))
            else Inr s1))"

text \<open>
  \<open>UnpredictICC_run\<close> is the function from its first read on, with the final values of
  the cursors kept; \<open>UnpredictICC\<close> adds the emptiness check on entry and returns the
  status together with the output buffer.
\<close>

definition UnpredictICC_run :: "icc_codec_common \<Rightarrow> u8 list \<Rightarrow> unpredict_state attempt" where
  "UnpredictICC_run c enc =
     (let sz = length enc
      in if 0 \<ge> sz then Inl (OutOfBounds, [])
         else case DecodeVarInt enc 0 of (osize, pos1) \<Rightarrow>
           if CheckIs32Bit osize \<noteq> OK then Inl (Expected32Bit, [])
           else if pos1 \<ge> sz then Inl (OutOfBounds, [])
           else case DecodeVarInt enc pos1 of (csize, pos2) \<Rightarrow>
             if CheckIs32Bit csize \<noteq> OK then Inl (Expected32Bit, [])
             else if CheckOutOfBounds pos2 csize sz \<noteq> OK then Inl (OutOfBounds, [])
             else
               (let commands_end = pos2 + unat csize;
                    s0 = \<lparr>st_result = [], st_pos = commands_end, st_cpos = pos2\<rparr>
                in case header_loop c enc osize commands_end 0
                          (ICCInitialHeaderPrediction c osize) s0 of
                     Inl e \<Rightarrow> Inl e
                   | Inr (Return s1) \<Rightarrow> Inr s1
                   | Inr (Proceed s1) \<Rightarrow>
                       if st_cpos s1 \<ge> commands_end then fail OutOfBounds s1
                       else case tag_list c enc osize commands_end s1 of
                           Inl e \<Rightarrow> Inl e
                         | Inr s2 \<Rightarrow>
                           (case main_loop c enc osize commands_end s2 of
                              Inl e \<Rightarrow> Inl e
                            | Inr s3 \<Rightarrow>
                                if st_pos s3 \<noteq> sz then fail NotAllDataUsed s3
                                else if length (st_result s3) \<noteq> unat osize
                                     then fail InvalidResultSize s3
                                else Inr s3)))"

definition UnpredictICC ::
  "icc_codec_common \<Rightarrow> u8 list \<Rightarrow> u8 list \<Rightarrow> status \<times> u8 list" where
  "UnpredictICC c enc result =
     (if result \<noteq> [] then (Inl ResultNotEmpty, result)
      else case UnpredictICC_run c enc of
             Inl (e, buf) \<Rightarrow> (Inl e, buf)
           | Inr s \<Rightarrow> (OK, st_result s))"


definition error_of :: "'a attempt \<Rightarrow> error option" where
  "error_of r = (case r of Inl (e, buf) \<Rightarrow> Some e | Inr x \<Rightarrow> None)"

subsection \<open>An instance of the parameters and three streams\<close>

text \<open>
  For evaluation on concrete streams the parameters are fixed: the constants and keyword
  tables to the values of the JPEG XL format (header of 128 bytes; commands 1, 2, 3, 4, 10
  and 16 onwards; tag codes 1, 2, 3 and 4 onwards; flag bits 64 and 128), the keyword
  helpers to four-byte appends. The three prediction helpers are stand-ins that predict
  zero: the statements evaluated below are about sizes, cursors and statuses, which do
  not depend on predicted byte values.
\<close>

definition uint32_be :: "u64 \<Rightarrow> u8 list" where
  "uint32_be v = [ucast (drop_bit 24 v), ucast (drop_bit 16 v), ucast (drop_bit 8 v), ucast v]"

definition keyword :: "string \<Rightarrow> Tag" where
  "keyword k = map (\<lambda>ch. word_of_nat (of_char ch)) k"

definition jxl_icc_common :: icc_codec_common where
  "jxl_icc_common =
     \<lparr>kICCHeaderSize = 128,
      kCommandTagUnknown = 1, kCommandTagTRC = 2, kCommandTagXYZ = 3,
      kCommandTagStringFirst = 4,
      kCommandInsert = 1, kCommandShuffle2 = 2, kCommandShuffle4 = 3,
      kCommandPredict = 4, kCommandXYZ = 10, kCommandTypeStartFirst = 16,
      kFlagBitOffset = 64, kFlagBitSize = 128,
      kNumTagStrings = 17,
      kTagStrings = (\<lambda>i. keyword
         ([''cprt'', ''wtpt'', ''bkpt'', ''rXYZ'', ''gXYZ'', ''bXYZ'', ''kXYZ'', ''rTRC'',
           ''gTRC'', ''bTRC'', ''kTRC'', ''chad'', ''desc'', ''chrm'', ''dmnd'', ''dmdd'',
           ''lumi''] ! i)),
      kNumTypeStrings = 8,
      kTypeStrings = (\<lambda>i. keyword
         ([''XYZ '', ''desc'', ''text'', ''mluc'', ''para'', ''curv'', ''sf32'', ''gbd ''] ! i)),
      kRtrcTag = keyword ''rTRC'', kGtrcTag = keyword ''gTRC'', kBtrcTag = keyword ''bTRC'',
      kRxyzTag = keyword ''rXYZ'', kGxyzTag = keyword ''gXYZ'', kBxyzTag = keyword ''bXYZ'',
      kKxyzTag = keyword ''kXYZ'', kWtptTag = keyword ''wtpt'', kBkptTag = keyword ''bkpt'',
      kLumiTag = keyword ''lumi'', kXyz_Tag = keyword ''XYZ '',
      ICCInitialHeaderPrediction = (\<lambda>osize i. 0),
      ICCPredictHeader = (\<lambda>icc header i. header),
      LinearPredictICCValue = (\<lambda>data start i stride width order'. 0),
      DecodeKeyword = (\<lambda>enc pos. map (\<lambda>i. enc ! (pos + i)) [0..<4]),
      AppendKeyword = (\<lambda>tag result. result @ tag),
      AppendUint32 = (\<lambda>v result. result @ uint32_be v)\<rparr>"


text \<open>
  \<open>example_stream\<close>: declared size 132, five command bytes (no tags; PREDICT with
  flags \<open>0x10\<close>, stride 31, four bytes), then 128 header bytes and four data bytes.
  \<open>example_stream_stride\<close>: declared size 200, four command bytes (no tags; PREDICT
  with flags \<open>0x10\<close> and stride 32), then 128 header bytes.
  \<open>example_stream_quarter\<close>: the same with stride 50, a quarter of the declared size.
\<close>

definition example_stream :: "u8 list" where
  "example_stream =
     [0x84, 0x01, 0x05, 0x00, 0x04, 0x10, 0x1F, 0x04] @ replicate 128 0 @ [1, 2, 3, 4]"

definition example_profile :: "u8 list" where
  "example_profile = replicate 128 0 @ [1, 2, 3, 4]"

definition example_stream_stride :: "u8 list" where
  "example_stream_stride = [0xC8, 0x01, 0x04, 0x00, 0x04, 0x10, 0x20] @ replicate 128 0"

definition example_stream_quarter :: "u8 list" where
  "example_stream_quarter = [0xC8, 0x01, 0x04, 0x00, 0x04, 0x10, 0x32] @ replicate 128 0"

section \<open>Lehmer codes (\<open>jxl/lehmer_code.h\<close>)\<close>

text \<open>
  \<open>LehmerT\<close> and the scratch buffer \<open>temp\<close> are \<open>uint32_t\<close>; the permutation type
  \<open>PermutationT\<close> is taken to be \<open>uint32_t\<close> as well. The length \<open>n\<close> is the
  length of the input list. An access outside \<open>temp\<close> and a loop that does not stop
  have no defined result: the model returns \<open>None\<close> there. The \<open>JXL_DASSERT\<close>
  lines are preconditions that a release build does not check; \<open>n != 0\<close> of
  \<open>DecodeLehmerCode\<close>, without which \<open>CeilLog2Nonzero\<close> has no value, is the one that
  the model turns into \<open>None\<close>.

  \<open>ValueOfLowest1Bit\<close> is a template; it is used at 32 and at 64 bits.
\<close>

definition ValueOfLowest1Bit :: "'a::len word \<Rightarrow> 'a word" where
  "ValueOfLowest1Bit t = t AND - t"

lemma and_pred_less: "i \<noteq> 0 \<Longrightarrow> unat (i AND (i - 1)) < unat (i :: 'a::len word)"
proof -
  assume nz: "i \<noteq> 0"
  have "i AND (i - 1) \<le> i - 1" by (rule word_and_le1)
  moreover have "i - 1 < i" using nz by (simp add: word_less_nat_alt unat_minus_one)
       (metis One_nat_def Suc_pred' lessI unat_gt_0)
  ultimately show ?thesis by (simp add: word_less_nat_alt word_le_nat_alt)
qed

text \<open>"Compute sum in Fenwick tree": \<open>while (i != 0) { penalty += temp[i]; i &= i - 1; }\<close>.\<close>

function fenwick_sum :: "u32 list \<Rightarrow> u32 \<Rightarrow> u32 \<Rightarrow> u32 option" where
  "fenwick_sum temp i penalty =
     (if i \<noteq> 0 then
        (if unat i < length temp
         then fenwick_sum temp (i AND (i - 1)) (penalty + temp ! unat i)
         else None)
      else Some penalty)"
  by pat_completeness auto

termination
  by (relation "measure (\<lambda>(temp, i, penalty). unat i)") (auto simp: and_pred_less)

declare fenwick_sum.simps [simp del]

text \<open>
  "Add operation in Fenwick tree":
  \<open>while (i < n + 1) { temp[i] += 1; i += ValueOfLowest1Bit(i); }\<close>. The loop does not
  stop when \<open>i\<close> is 0 or wraps around to 0, so it is a partial function.
\<close>

partial_function (option) fenwick_add :: "nat \<Rightarrow> u32 list \<Rightarrow> u32 \<Rightarrow> u32 list option" where
  "fenwick_add n temp i =
     (if unat i < n + 1 then
        (if unat i < length temp
         then fenwick_add n (temp[unat i := temp ! unat i + 1]) (i + ValueOfLowest1Bit i)
         else None)
      else Some temp)"

declare fenwick_add.simps [code]

text \<open>The loop over the permutation, and the function with its zeroed \<open>temp\<close>.\<close>

fun ComputeLehmerCode_loop :: "nat \<Rightarrow> u32 list \<Rightarrow> u32 list \<Rightarrow> u32 list option" where
  "ComputeLehmerCode_loop n [] temp = Some []"
| "ComputeLehmerCode_loop n (s # rest) temp =
     (case fenwick_sum temp (s + 1) 0 of
        None \<Rightarrow> None
      | Some penalty \<Rightarrow>
          (case fenwick_add n temp (s + 1) of
             None \<Rightarrow> None
           | Some temp' \<Rightarrow>
               (case ComputeLehmerCode_loop n rest temp' of
                  None \<Rightarrow> None
                | Some code \<Rightarrow> Some ((s - penalty) # code))))"

definition ComputeLehmerCode :: "u32 list \<Rightarrow> u32 list option" where
  "ComputeLehmerCode permutation =
     (let n = length permutation
      in ComputeLehmerCode_loop n permutation (replicate (n + 1) 0))"

text \<open>
  Modelled from the spec: \<open>CeilLog2Nonzero\<close> is declared in \<open>jxl/base/bits.h\<close>, which
  is not among the sources. It is the least \<open>k\<close> with \<open>x \<le> 2 ^ k\<close>, as the values
  expected by \<open>jxl/bits_test.cc\<close> say (0, 1, 2, 2, 3, 3, 3 for 1 to 7; 31 for \<open>2 ^ 31\<close>
  and 32 for \<open>2 ^ 31 + 1\<close>).
\<close>

function CeilLog2Nonzero :: "nat \<Rightarrow> nat" where
  "CeilLog2Nonzero x = (if x \<le> 1 then 0 else Suc (CeilLog2Nonzero ((x + 1) div 2)))"
  by pat_completeness auto

termination
  by (relation "measure id") auto

declare CeilLog2Nonzero.simps [simp del]

text \<open>
  "Extract i-th unused element via implicit order-statistics tree": the loop
  \<open>for (i = 0; i <= log2n; i++)\<close> over \<open>bit\<close>, \<open>next\<close> and \<open>rank\<close>.
\<close>

function select_loop ::
  "u32 list \<Rightarrow> nat \<Rightarrow> nat \<Rightarrow> nat \<Rightarrow> nat \<Rightarrow> u32 \<Rightarrow> (nat \<times> u32) option" where
  "select_loop temp log2n j bit' next rank =
     (if j \<le> log2n then
        (let cand = next + bit'
         in if 1 \<le> cand \<and> cand - 1 < length temp then
              (if temp ! (cand - 1) < rank
               then select_loop temp log2n (j + 1) (bit' div 2) cand (rank - temp ! (cand - 1))
               else select_loop temp log2n (j + 1) (bit' div 2) next rank)
            else None)
      else Some (next, rank))"
  by pat_completeness auto

termination
  by (relation "measure (\<lambda>(temp, log2n, j, bit', next, rank). log2n + 1 - j)") auto

declare select_loop.simps [simp del]

text \<open>
  "Mark as used":
  \<open>while (next <= padded_n) { temp[next - 1] -= 1; next += ValueOfLowest1Bit(next); }\<close>,
  on a 64-bit \<open>next\<close>.
\<close>

partial_function (option) mark_used :: "nat \<Rightarrow> u32 list \<Rightarrow> u64 \<Rightarrow> u32 list option" where
  "mark_used padded_n temp next =
     (if unat next \<le> padded_n then
        (if 1 \<le> unat next \<and> unat next - 1 < length temp
         then mark_used padded_n (temp[unat next - 1 := temp ! (unat next - 1) - 1])
                (next + ValueOfLowest1Bit next)
         else None)
      else Some temp)"

declare mark_used.simps [code]

text \<open>
  The loop over the code, and the function with its initial \<open>temp\<close>; \<open>n\<close> is the
  length of a buffer, so \<open>1ull << log2n\<close> does not overflow.
\<close>

fun DecodeLehmerCode_loop :: "nat \<Rightarrow> nat \<Rightarrow> u32 list \<Rightarrow> u32 list \<Rightarrow> u32 list option" where
  "DecodeLehmerCode_loop log2n padded_n [] temp = Some []"
| "DecodeLehmerCode_loop log2n padded_n (c # rest) temp =
     (case select_loop temp log2n 0 padded_n 0 (c + 1) of
        None \<Rightarrow> None
      | Some (next, rank) \<Rightarrow>
          (case mark_used padded_n temp (word_of_nat next + 1) of
             None \<Rightarrow> None
           | Some temp' \<Rightarrow>
               (case DecodeLehmerCode_loop log2n padded_n rest temp' of
                  None \<Rightarrow> None
                | Some permutation \<Rightarrow> Some (word_of_nat next # permutation))))"

definition DecodeLehmerCode :: "u32 list \<Rightarrow> u32 list option" where
  "DecodeLehmerCode code =
     (let n = length code
      in if n = 0 then None
         else
           (let log2n = CeilLog2Nonzero n;
                padded_n = 2 ^ log2n;
                temp = map (\<lambda>i. ValueOfLowest1Bit (word_of_nat (i + 1))) [0..<padded_n]
            in DecodeLehmerCode_loop log2n padded_n code temp))"

subsection \<open>What the claims say about Lehmer codes\<close>

text \<open>
  The lowest set bit of a natural number, the number of values in an interval that
  satisfy a predicate, and the code of the spec: the rank of each element among the
  values not yet used (\<open>U\<close> is the set of the used ones).
\<close>

function lb :: "nat \<Rightarrow> nat" where
  "lb k = (if k = 0 then 0 else if odd k then 1 else 2 * lb (k div 2))"
  by pat_completeness auto

termination
  by (relation "measure id") auto

declare lb.simps [simp del]

definition cnt :: "(nat \<Rightarrow> bool) \<Rightarrow> nat \<Rightarrow> nat \<Rightarrow> nat" where
  "cnt P a b = card {v. a \<le> v \<and> v < b \<and> P v}"

fun rank_code :: "nat set \<Rightarrow> nat list \<Rightarrow> nat list" where
  "rank_code U [] = []"
| "rank_code U (s # rest) = cnt (\<lambda>v. v \<notin> U) 0 s # rank_code (insert s U) rest"

text \<open>
  The invariants of the two trees: node \<open>k\<close> of the encoder's tree counts the used
  values in \<open>[k - lb k, k)\<close>; node \<open>k\<close> of the decoder's tree (stored at \<open>k - 1\<close>)
  counts the unused ones.
\<close>

definition fen_inv :: "nat \<Rightarrow> nat set \<Rightarrow> u32 list \<Rightarrow> bool" where
  "fen_inv n U temp \<longleftrightarrow>
     length temp = n + 1 \<and> (\<forall>k. 1 \<le> k \<and> k \<le> n \<longrightarrow> unat (temp ! k) = cnt (\<lambda>v. v \<in> U) (k - lb k) k)"

definition dec_inv :: "nat \<Rightarrow> nat set \<Rightarrow> u32 list \<Rightarrow> bool" where
  "dec_inv N U temp \<longleftrightarrow>
     length temp = N \<and>
     (\<forall>k. 1 \<le> k \<and> k \<le> N \<longrightarrow> unat (temp ! (k - 1)) = cnt (\<lambda>v. v \<notin> U) (k - lb k) k)"

text \<open>
  A valid permutation consists of \<open>n\<close> distinct indices below \<open>n\<close>; a valid code has
  \<open>code[i] + i < n\<close>, the precondition asserted by \<open>DecodeLehmerCode\<close>.
\<close>

definition valid_permutation :: "u32 list \<Rightarrow> bool" where
  "valid_permutation p \<longleftrightarrow> distinct p \<and> (\<forall>x\<in>set p. unat x < length p)"

definition valid_code :: "u32 list \<Rightarrow> bool" where
  "valid_code c \<longleftrightarrow> (\<forall>i<length c. unat (c ! i) + i < length c)"

text \<open>The permutation of the spec's example, and its code.\<close>

definition example_permutation :: "u32 list" where
  "example_permutation = [3, 1, 4, 0, 5, 2, 7, 6]"

definition example_code :: "u32 list" where
  "example_code = [3, 1, 2, 0, 1, 0, 1, 0]"

section \<open>The resumable ICC reader (\<open>lib/jxl/icc_codec.cc\<close>)\<close>

text \<open>
  Modelled from the spec: \<open>BitReader\<close> is declared in \<open>lib/jxl/dec_bit_reader.h\<close>,
  which is not among the sources. It reads a sequence of bytes bit by bit, the first bit
  being the least significant bit of byte 0; reading past the end returns zeros, and
  \<open>AllReadsWithinBounds\<close> tells whether the position is still inside the bytes.
\<close>

record BitReader =
  br_data :: "u8 list"
  br_pos :: nat

definition TotalBitsConsumed :: "BitReader \<Rightarrow> nat" where
  "TotalBitsConsumed br = br_pos br"

definition AllReadsWithinBounds :: "BitReader \<Rightarrow> bool" where
  "AllReadsWithinBounds br \<longleftrightarrow> \<not> (TotalBitsConsumed br > 8 * length (br_data br))"

definition stream_bit :: "u8 list \<Rightarrow> nat \<Rightarrow> bool" where
  "stream_bit bytes k = (k div 8 < length bytes \<and> bit (bytes ! (k div 8)) (k mod 8))"

definition PeekBits :: "BitReader \<Rightarrow> nat \<Rightarrow> nat" where
  "PeekBits br n = (\<Sum>j\<leftarrow>[0..<n]. if stream_bit (br_data br) (br_pos br + j) then 2 ^ j else 0)"

definition SkipBits :: "nat \<Rightarrow> BitReader \<Rightarrow> BitReader" where
  "SkipBits n br = br\<lparr>br_pos := br_pos br + n\<rparr>"

text \<open>
  \<open>ANSSymbolReader\<close>, its tables and \<open>ICCANSContext\<close> are not among the sources
  either. They are parameters of the model. What the symbol reader does with the bit
  reader is kept explicit: \<open>ReadHybridUint\<close> is a reading program, which either is done
  with a result or asks for the next \<open>n\<close> bits and goes on with their value. A
  checkpoint of the symbol reader is a copy of its state.
\<close>

datatype 'r reading = Done 'r | ReadBits nat "nat \<Rightarrow> 'r reading"

primrec run_reading :: "'r reading \<Rightarrow> BitReader \<Rightarrow> 'r \<times> BitReader" where
  "run_reading (Done r) br = (r, br)"
| "run_reading (ReadBits n k) br = run_reading (k (PeekBits br n)) (SkipBits n br)"

record 's ans_symbol_reader =
  kMaxCheckpointInterval :: nat
  ReadHybridUint :: "nat \<Rightarrow> 's \<Rightarrow> (nat \<times> 's) reading"
  CheckANSFinalState :: "'s \<Rightarrow> bool"
  ICCANSContext :: "nat \<Rightarrow> u8 \<Rightarrow> u8 \<Rightarrow> nat"

text \<open>
  The members of \<open>ICCReader\<close> that \<open>Process\<close> uses: \<open>enc_size_\<close>, \<open>i_\<close>,
  \<open>bits_to_skip_\<close>, \<open>used_bits_base_\<close>, \<open>decompressed_\<close> and \<open>ans_reader_\<close>
  (an identifier cannot end with an underscore here, so the fields carry the prefix
  \<open>icc_\<close> instead).
\<close>

record 's ICCReader =
  icc_enc_size :: nat
  icc_i :: nat
  icc_bits_to_skip :: nat
  icc_used_bits_base :: nat
  icc_decompressed :: "u8 list"
  icc_ans_reader :: 's

text \<open>
  The conversion of a \<open>size_t\<close> to \<open>float\<close>: the nearest number with a significand
  of 24 bits, ties to the even significand. The result is a whole number, so it is kept
  as a natural number. Dividing by \<open>8.0f\<close> and multiplying by 256 only move the
  exponent, so \<open>used_bytes * 256\<close> is exactly 32 times the converted bit count.
\<close>

function bit_length :: "nat \<Rightarrow> nat" where
  "bit_length n = (if n = 0 then 0 else Suc (bit_length (n div 2)))"
  by pat_completeness auto

termination
  by (relation "measure id") auto

declare bit_length.simps [simp del]

definition float_of_size_t :: "nat \<Rightarrow> nat" where
  "float_of_size_t n =
     (if n < 2 ^ 24 then n
      else
        (let e = bit_length n - 24;
             q = n div 2 ^ e;
             rest = n mod 2 ^ e;
             half = 2 ^ (e - 1)
         in if rest > half \<or> (rest = half \<and> odd q) then (q + 1) * 2 ^ e else q * 2 ^ e))"

text \<open>
  Subtraction of \<open>size_t\<close> values wraps around. \<open>PaddedBytes::resize\<close> keeps the
  bytes that are there; the new ones are taken to be zero.
\<close>

definition size_t_sub :: "nat \<Rightarrow> nat \<Rightarrow> nat" where
  "size_t_sub a b = (if b \<le> a then a - b else a + 2 ^ 64 - b)"

definition resize :: "nat \<Rightarrow> u8 list \<Rightarrow> u8 list" where
  "resize n xs = take n xs @ replicate (n - length xs) 0"

type_synonym 's outcome = "status \<times> 's ICCReader \<times> BitReader \<times> u8 list"

text \<open>
  The two lambdas of \<open>Process\<close>, with the local variables \<open>checkpoint\<close> and
  \<open>saved_i\<close> passed explicitly, then the block run at every checkpoint index, the
  statements after the loop, and the loop. Writing \<open>decompressed_[i_]\<close> outside the
  buffer has no defined result (\<open>None\<close>).
\<close>

definition check_and_restore ::
  "'s ICCReader \<Rightarrow> 's \<Rightarrow> nat \<Rightarrow> BitReader \<Rightarrow> (error \<times> 's ICCReader) + 's ICCReader" where
  "check_and_restore r checkpoint saved_i reader =
     (if AllReadsWithinBounds reader then Inr r
      else Inl (NotEnoughBytes, r\<lparr>icc_ans_reader := checkpoint, icc_i := saved_i\<rparr>))"

definition save :: "'s ICCReader \<Rightarrow> BitReader \<Rightarrow> 's ICCReader \<times> 's \<times> nat" where
  "save r reader =
     (r\<lparr>icc_bits_to_skip := size_t_sub (TotalBitsConsumed reader) (icc_used_bits_base r)\<rparr>,
      icc_ans_reader r, icc_i r)"

definition checkpoint_block ::
  "'s ans_symbol_reader \<Rightarrow> 's ICCReader \<Rightarrow> 's \<Rightarrow> nat \<Rightarrow> BitReader
   \<Rightarrow> (error \<times> 's ICCReader) + ('s ICCReader \<times> 's \<times> nat)" where
  "checkpoint_block P r checkpoint saved_i reader =
     (if icc_i r mod kMaxCheckpointInterval P = 0 \<and> icc_i r > 0 then
        (case check_and_restore r checkpoint saved_i reader of
           Inl x \<Rightarrow> Inl x
         | Inr r0 \<Rightarrow>
             (case save r0 reader of (r1, checkpoint1, saved_i1) \<Rightarrow>
                if icc_i r1 > 0 \<and> icc_i r1 mod 65536 = 0
                   \<and> float_of_size_t (icc_i r1)
                       > 32 * float_of_size_t
                               (size_t_sub (TotalBitsConsumed reader) (icc_used_bits_base r1))
                then Inl (CorruptedStream, r1)
                else Inr (r1\<lparr>icc_decompressed :=
                               resize (min (icc_i r1 + 0x400) (icc_enc_size r1)) (icc_decompressed r1)\<rparr>,
                          checkpoint1, saved_i1)))
      else Inr (r, checkpoint, saved_i))"

definition process_finish ::
  "'s ans_symbol_reader \<Rightarrow> icc_codec_common \<Rightarrow> 's ICCReader \<Rightarrow> 's \<Rightarrow> nat \<Rightarrow> BitReader
   \<Rightarrow> u8 list \<Rightarrow> 's outcome" where
  "process_finish P c r checkpoint saved_i reader icc =
     (case check_and_restore r checkpoint saved_i reader of
        Inl (e, r') \<Rightarrow> (Inl e, r', reader, icc)
      | Inr r0 \<Rightarrow>
          (let r1 = r0\<lparr>icc_bits_to_skip :=
                       size_t_sub (TotalBitsConsumed reader) (icc_used_bits_base r0)\<rparr>
           in if \<not> CheckANSFinalState P (icc_ans_reader r1)
              then (Inl CorruptedICCProfile, r1, reader, icc)
              else case UnpredictICC c (icc_decompressed r1) [] of
                     (st, out) \<Rightarrow> (st, r1, reader, out)))"

lemma check_and_restore_fields:
  "check_and_restore r ck si br = Inr r' \<Longrightarrow> r' = r"
  by (auto simp: check_and_restore_def split: if_splits)

lemma checkpoint_block_fields:
  "checkpoint_block P r ck si br = Inr (r1, ck1, si1) \<Longrightarrow> icc_i r1 = icc_i r \<and> icc_enc_size r1 = icc_enc_size r"
  by (auto simp: checkpoint_block_def save_def Let_def check_and_restore_def
      split: if_splits sum.splits prod.splits)

function process_loop ::
  "'s ans_symbol_reader \<Rightarrow> icc_codec_common \<Rightarrow> 's ICCReader \<Rightarrow> 's \<Rightarrow> nat \<Rightarrow> BitReader
   \<Rightarrow> u8 list \<Rightarrow> 's outcome option" where
  "process_loop P c r checkpoint saved_i reader icc =
     (if icc_i r < icc_enc_size r then
        (case checkpoint_block P r checkpoint saved_i reader of
           Inl (e, r') \<Rightarrow> Some (Inl e, r', reader, icc)
         | Inr (r1, checkpoint1, saved_i1) \<Rightarrow>
             if \<not> icc_i r1 \<ge> 2 then Some (Inl EnsureFailed, r1, reader, icc)
             else if \<not> icc_i r1 < length (icc_decompressed r1) then None
             else
               (case run_reading
                       (ReadHybridUint P
                          (ICCANSContext P (icc_i r1) (icc_decompressed r1 ! (icc_i r1 - 1))
                             (icc_decompressed r1 ! (icc_i r1 - 2)))
                          (icc_ans_reader r1)) reader of
                  ((v, ans'), reader') \<Rightarrow>
                    process_loop P c
                      (r1\<lparr>icc_decompressed := (icc_decompressed r1)[icc_i r1 := word_of_nat v],
                          icc_ans_reader := ans', icc_i := icc_i r1 + 1\<rparr>)
                      checkpoint1 saved_i1 reader' icc))
      else Some (process_finish P c r checkpoint saved_i reader icc))"
  by pat_completeness auto

termination
  by (relation "measure (\<lambda>(P, c, r, ck, si, br, icc). icc_enc_size r - icc_i r)")
     (auto dest!: checkpoint_block_fields)

declare process_loop.simps [simp del]

definition Process ::
  "'s ans_symbol_reader \<Rightarrow> icc_codec_common \<Rightarrow> 's ICCReader \<Rightarrow> BitReader \<Rightarrow> u8 list
   \<Rightarrow> 's outcome option" where
  "Process P c r reader icc =
     (case save r reader of (r1, checkpoint, saved_i) \<Rightarrow>
        process_loop P c r1 checkpoint saved_i reader icc)"

text \<open>
  An instance of the symbol reader for evaluation: every symbol is the next byte of the
  stream, the state never changes, and checkpoints are taken every 512 symbols.
\<close>

definition byte_reader :: "nat ans_symbol_reader" where
  "byte_reader =
     \<lparr>kMaxCheckpointInterval = 512,
      ReadHybridUint = (\<lambda>ctx s. ReadBits 8 (\<lambda>v. Done (v, s))),
      CheckANSFinalState = (\<lambda>s. s = 0x130000),
      ICCANSContext = (\<lambda>i b1 b2. 0)\<rparr>"


text \<open>
  What a caller observes of \<open>Process\<close>: the status and the output bytes.
\<close>

definition outcome_of :: "'s outcome option \<Rightarrow> (status \<times> u8 list) option" where
  "outcome_of x = map_option (\<lambda>(st, r, reader, icc). (st, icc)) x"

text \<open>
  Two reader states agree up to \<open>k\<close> when they differ at most in the bytes of
  \<open>decompressed_\<close> from index \<open>k\<close> on, the buffer having the same size in both.
\<close>

definition agree :: "nat \<Rightarrow> 's ICCReader \<Rightarrow> 's ICCReader \<Rightarrow> bool" where
  "agree k r r' \<longleftrightarrow>
     icc_i r' = icc_i r \<and> icc_enc_size r' = icc_enc_size r
     \<and> icc_used_bits_base r' = icc_used_bits_base r
     \<and> icc_bits_to_skip r' = icc_bits_to_skip r
     \<and> icc_ans_reader r' = icc_ans_reader r
     \<and> length (icc_decompressed r') = length (icc_decompressed r)
     \<and> take k (icc_decompressed r') = take k (icc_decompressed r)"

text \<open>
  A result of \<open>UnpredictICC\<close> that is neither a request for more input nor the
  corrupted-stream error of the expansion check.
\<close>

definition hard_failure :: "'a attempt \<Rightarrow> bool" where
  "hard_failure x \<longleftrightarrow>
     (\<forall>buf. x \<noteq> Inl (NotEnoughBytes, buf)) \<and> (\<forall>buf. x \<noteq> Inl (CorruptedStream, buf))"




section \<open>Properties of VarInt decoding\<close>

lemma leb128_snoc: "leb128 (bs @ [b]) = leb128 bs + 2 ^ (7 * length bs) * unat (b AND 127)"
  by (induction bs) (auto simp: algebra_simps power_add)

lemma leb128_lt: "leb128 bs < 2 ^ (7 * length bs)"
proof (induction bs)
  case Nil show ?case by simp
next
  case (Cons b bs)
  have "unat (b AND 127) \<le> unat (127 :: u8)"
    by (rule word_and_le1 [THEN word_le_nat_alt [THEN iffD1]])
  hence "unat (b AND 127) < 128" by simp
  moreover have "leb128 bs + 1 \<le> 2 ^ (7 * length bs)" using Cons by simp
  hence "128 * (leb128 bs + 1) \<le> 128 * 2 ^ (7 * length bs)" by (rule mult_le_mono2)
  ultimately show ?case by (simp add: power_add)
qed

lemma DecodeVarInt_loop_wf:
  assumes "pos + k \<le> length input" "i < k" "k \<le> 10"
    and "\<forall>j<k - 1. input ! (pos + j) AND 128 \<noteq> 0"
    and "input ! (pos + (k - 1)) AND 128 = 0"
    and "ret = word_of_nat (leb128 (take i (drop pos input)))"
  shows "DecodeVarInt_loop input pos i ret = (k - 1, word_of_nat (leb128 (take k (drop pos input))))"
  using assms
proof (induction "k - i" arbitrary: i ret)
  case 0 then show ?case by simp
next
  case (Suc d)
  let ?b = "input ! (pos + i)"
  let ?xs = "drop pos input"
  have len: "i < length ?xs" using Suc.prems by simp
  have tk: "take (Suc i) ?xs = take i ?xs @ [?b]"
    using len by (simp add: take_Suc_conv_app_nth)
  have li: "length (take i ?xs) = i" using len by simp
  have lt: "leb128 (take i ?xs) < 2 ^ (7 * i)" using leb128_lt [of "take i ?xs"] li by simp
  have disj: "\<And>n. \<not> bit (word_of_nat (leb128 (take i ?xs)) :: u64) n \<or> \<not> bit (push_bit (7 * i) (ucast (?b AND 127)) :: u64) n"
  proof -
    fix n
    show "\<not> bit (word_of_nat (leb128 (take i ?xs)) :: u64) n \<or> \<not> bit (push_bit (7 * i) (ucast (?b AND 127)) :: u64) n"
    proof (cases "n < 7 * i")
      case True then show ?thesis by (simp add: bit_push_bit_iff)
    next
      case False
      hence "2 ^ (7 * i) \<le> (2::nat) ^ n" by (simp add: power_increasing)
      hence "leb128 (take i ?xs) < 2 ^ n" using lt by linarith
      hence "\<not> bit (leb128 (take i ?xs)) n" by (simp add: bit_nat_def)
      then show ?thesis by (simp add: bit_of_nat_iff)
    qed
  qed
  have step: "ret OR push_bit (7 * i) (ucast (?b AND 127)) = (word_of_nat (leb128 (take (Suc i) ?xs)) :: u64)"
  proof -
    have pb: "(push_bit (7 * i) (ucast (?b AND 127)) :: u64) = word_of_nat (2 ^ (7 * i) * unat (?b AND 127))"
      by (simp add: push_bit_eq_mult)
    have "ret OR push_bit (7 * i) (ucast (?b AND 127))
          = word_of_nat (leb128 (take i ?xs)) + (push_bit (7 * i) (ucast (?b AND 127)) :: u64)"
      unfolding Suc.prems(6) by (rule disjunctive_add [OF disj, symmetric])
    also have "\<dots> = word_of_nat (leb128 (take i ?xs) + 2 ^ (7 * i) * unat (?b AND 127))"
      unfolding pb by simp
    finally show ?thesis unfolding tk leb128_snoc li .
  qed
  show ?case
  proof (cases "i = k - 1")
    case True
    then have "?b AND 128 = 0" using Suc.prems by simp
    moreover have "Suc i = k" using True Suc.prems by simp
    ultimately show ?thesis using Suc.prems step True
      by (subst DecodeVarInt_loop.simps) (simp add: Let_def)
  next
    case False
    then have ne: "?b AND 128 \<noteq> 0" and lt2: "i + 1 < k" using Suc.prems by auto
    have "DecodeVarInt_loop input pos (i + 1) (ret OR push_bit (7 * i) (ucast (?b AND 127)))
          = (k - 1, word_of_nat (leb128 (take k ?xs)))"
      using Suc.hyps Suc.prems lt2 step by (intro Suc.hyps(1)) auto
    then show ?thesis using ne Suc.prems
      by (subst DecodeVarInt_loop.simps) (simp add: Let_def)
  qed
qed

lemma DecodeVarInt_loop_take:
  "DecodeVarInt_loop (take (pos + 10) input) pos i ret = DecodeVarInt_loop input pos i ret"
proof (induction input pos i ret rule: DecodeVarInt_loop.induct)
  case (1 input pos i ret)
  note L = DecodeVarInt_loop.simps [of "take (pos + 10) input" pos i ret]
  note R = DecodeVarInt_loop.simps [of input pos i ret]
  show ?case
  proof (cases "pos + i < length input \<and> i < 10")
    case True
    then have c: "pos + i < length (take (pos + 10) input) \<and> i < 10" by simp
    have n: "take (pos + 10) input ! (pos + i) = input ! (pos + i)" using True by simp
    show ?thesis
    proof (cases "input ! (pos + i) AND 128 = 0")
      case stop: True
      show ?thesis using True c n stop by (simp add: L R Let_def)
    next
      case cont: False
      have "DecodeVarInt_loop (take (pos + 10) input) pos (i + 1)
              (ret OR push_bit (7 * i) (ucast (input ! (pos + i) AND 127)))
            = DecodeVarInt_loop input pos (i + 1)
              (ret OR push_bit (7 * i) (ucast (input ! (pos + i) AND 127)))"
        using "1.IH" True cont by simp
      then show ?thesis using True c n cont by (simp add: L R Let_def)
    qed
  next
    case False
    then have F': "\<not> (pos + i < length (take (pos + 10) input) \<and> i < 10)" by auto
    have "DecodeVarInt_loop input pos i ret = (i, ret)"
      unfolding R by (rule if_not_P) (rule False)
    moreover have "DecodeVarInt_loop (take (pos + 10) input) pos i ret = (i, ret)"
      unfolding L by (rule if_not_P) (rule F')
    ultimately show ?thesis by simp
  qed
qed

lemma DecodeVarInt_loop_le: "i \<le> 10 \<Longrightarrow> fst (DecodeVarInt_loop input pos i ret) \<le> 10"
proof (induction input pos i ret rule: DecodeVarInt_loop.induct)
  case (1 input pos i ret)
  then show ?case
    by (subst DecodeVarInt_loop.simps) (auto simp: Let_def)
qed

lemma leb128_mod:
  "unat (word_of_nat (leb128 bs) :: u64) = leb128 bs mod 2 ^ 64"
  by (simp add: unsigned_of_nat take_bit_eq_mod)

text \<open>
  Claim C8, as the code has it. \<open>DecodeVarInt\<close> decodes unsigned LEB128 and looks at no
  more than ten bytes: cutting the input after the tenth byte from the cursor changes
  nothing, and the cursor never advances by more than eleven. For a well-formed VarInt of
  \<open>k \<le> 10\<close> bytes (continuation bit set on the first \<open>k - 1\<close> bytes, clear on the last)
  the cursor advances by exactly \<open>k\<close> and the value returned is the LEB128 value of
  those bytes reduced modulo \<open>2 ^ 64\<close>: the result is a 64-bit integer, and of the
  payload of a tenth byte only the lowest bit is kept. It is the LEB128 value itself for
  \<open>k \<le> 9\<close>, and whenever that value is below \<open>2 ^ 64\<close>.
\<close>

theorem DecodeVarInt_leb128:
  "DecodeVarInt (take (pos + 10) input) pos = DecodeVarInt input pos
   \<and> snd (DecodeVarInt input pos) \<le> pos + 11
   \<and> (0 < k \<and> k \<le> 10 \<and> pos + k \<le> length input
        \<and> (\<forall>j<k - 1. input ! (pos + j) AND 128 \<noteq> 0)
        \<and> input ! (pos + (k - 1)) AND 128 = 0
      \<longrightarrow> DecodeVarInt input pos = (word_of_nat (leb128 (take k (drop pos input))), pos + k)
          \<and> unat (fst (DecodeVarInt input pos)) = leb128 (take k (drop pos input)) mod 2 ^ 64
          \<and> (leb128 (take k (drop pos input)) < 2 ^ 64
               \<longrightarrow> unat (fst (DecodeVarInt input pos)) = leb128 (take k (drop pos input)))
          \<and> (k \<le> 9 \<longrightarrow> unat (fst (DecodeVarInt input pos)) = leb128 (take k (drop pos input))))"
proof (intro conjI impI)
  show "DecodeVarInt (take (pos + 10) input) pos = DecodeVarInt input pos"
    by (simp add: DecodeVarInt_def DecodeVarInt_loop_take)
  show "snd (DecodeVarInt input pos) \<le> pos + 11"
    using DecodeVarInt_loop_le [of 0 input pos 0]
    by (cases "DecodeVarInt_loop input pos 0 0") (simp add: DecodeVarInt_def)
next
  assume h: "0 < k \<and> k \<le> 10 \<and> pos + k \<le> length input
        \<and> (\<forall>j<k - 1. input ! (pos + j) AND 128 \<noteq> 0)
        \<and> input ! (pos + (k - 1)) AND 128 = 0"
  let ?v = "leb128 (take k (drop pos input))"
  from h have "DecodeVarInt_loop input pos 0 0 = (k - 1, word_of_nat ?v)"
    by (intro DecodeVarInt_loop_wf) auto
  then show eq: "DecodeVarInt input pos = (word_of_nat ?v, pos + k)"
    using h by (simp add: DecodeVarInt_def)
  show md: "unat (fst (DecodeVarInt input pos)) = ?v mod 2 ^ 64"
    unfolding eq by (simp add: leb128_mod)
  {
    assume "?v < 2 ^ 64"
    then show "unat (fst (DecodeVarInt input pos)) = ?v" unfolding md by simp
  }
  {
    assume k9: "k \<le> 9"
    have len: "length (take k (drop pos input)) = k" using h by auto
    have "?v < 2 ^ (7 * k)" using leb128_lt [of "take k (drop pos input)"] len by simp
    also have "(2::nat) ^ (7 * k) \<le> 2 ^ 63" using k9 by (intro power_increasing) simp_all
    finally have "?v < 2 ^ 64" by simp
    then show "unat (fst (DecodeVarInt input pos)) = ?v" unfolding md by simp
  }
qed

theorem DecodeVarInt_leb128_witness:
  "DecodeVarInt [0x05, 0x80, 0x01, 0x07] 1 = (128, 3)
   \<and> unat (fst (DecodeVarInt [0x05, 0x80, 0x01, 0x07] 1)) = leb128 [0x80, 0x01]"
proof -
  let ?inp = "[0x05, 0x80, 0x01, 0x07] :: u8 list"
  have h: "0 < (2::nat) \<and> (2::nat) \<le> 10 \<and> 1 + 2 \<le> length ?inp
        \<and> (\<forall>j<2 - 1. ?inp ! (1 + j) AND 128 \<noteq> 0)
        \<and> ?inp ! (1 + (2 - 1)) AND 128 = 0"
    by simp
  have v: "leb128 (take 2 (drop 1 ?inp)) = 128" by simp
  from DecodeVarInt_leb128 [of 1 ?inp 2] h v show ?thesis by simp
qed

text \<open>
  Claim C8 as stated fails for a VarInt of ten bytes whose last byte has a payload bit
  above the lowest: nine bytes \<open>0x80\<close> followed by \<open>0x02\<close> are well formed (the
  continuation bit, 128, is set on the first nine and clear on the tenth) and have the
  LEB128 value \<open>2 ^ 64\<close>, and \<open>DecodeVarInt\<close> returns 0 for them.
\<close>

theorem DecodeVarInt_ten_bytes_counterexample:
  "map ((AND) 128) [0x80, 0x80, 0x80, 0x80, 0x80, 0x80, 0x80, 0x80, 0x80, 0x02 :: u8]
     = [128, 128, 128, 128, 128, 128, 128, 128, 128, 0]
   \<and> leb128 [0x80, 0x80, 0x80, 0x80, 0x80, 0x80, 0x80, 0x80, 0x80, 0x02] = 2 ^ 64
   \<and> DecodeVarInt [0x80, 0x80, 0x80, 0x80, 0x80, 0x80, 0x80, 0x80, 0x80, 0x02] 0 = (0, 10)
   \<and> unat (fst (DecodeVarInt [0x80, 0x80, 0x80, 0x80, 0x80, 0x80, 0x80, 0x80, 0x80, 0x02] 0))
       \<noteq> leb128 [0x80, 0x80, 0x80, 0x80, 0x80, 0x80, 0x80, 0x80, 0x80, 0x02]"
proof -
  let ?bs = "[0x80, 0x80, 0x80, 0x80, 0x80, 0x80, 0x80, 0x80, 0x80, 0x02] :: u8 list"
  have a: "map ((AND) 128) ?bs = [128, 128, 128, 128, 128, 128, 128, 128, 128, 0]" by simp
  have c: "leb128 ?bs = 2 ^ 64" by simp
  have d: "DecodeVarInt ?bs 0 = (0, 10)"
    by (simp add: DecodeVarInt_def DecodeVarInt_loop.simps)
  have e: "unat (fst (DecodeVarInt ?bs 0)) \<noteq> leb128 ?bs"
    unfolding d c by simp
  from a c d e show ?thesis by blast
qed

section \<open>Properties of the range checks and of the preamble check\<close>

lemma mask32_numeral: "(0xFFFFFFFF :: u64) = mask 32"
  by (simp add: mask_eq_exp_minus_1)

lemma and_not_mask32: "(v :: u64) AND NOT 0xFFFFFFFF = 0 \<longleftrightarrow> v < 2 ^ 32"
proof
  assume a: "v AND NOT 0xFFFFFFFF = 0"
  have "v = (v AND mask 32) OR (v AND NOT (mask 32))"
    by (simp add: bit.conj_disj_distrib [symmetric])
  then have "v AND mask 32 = v" using a unfolding mask32_numeral by simp
  then show "v < 2 ^ 32" by (simp add: mask_eq_iff_w2p word_size)
next
  assume "v < 2 ^ 32"
  then have "v AND mask 32 = v" by (rule less_mask_eq)
  then have "v AND NOT (mask 32) = (v AND mask 32) AND NOT (mask 32)" by simp
  also have "\<dots> = 0" by (simp add: and.assoc)
  finally show "v AND NOT 0xFFFFFFFF = 0" unfolding mask32_numeral .
qed

lemma CheckIs32Bit_iff: "CheckIs32Bit v = OK \<longleftrightarrow> unat v < 2 ^ 32"
proof -
  have "v < 2 ^ 32 \<longleftrightarrow> unat v < 2 ^ 32"
    by (simp add: word_less_nat_alt)
  then show ?thesis unfolding CheckIs32Bit_def and_not_mask32 by simp
qed

lemma CheckIs32Bit_cases: "CheckIs32Bit v = OK \<or> CheckIs32Bit v = Inl Expected32Bit"
  by (simp add: CheckIs32Bit_def)

lemma CheckOutOfBounds_cases:
  "CheckOutOfBounds a b sz = OK \<or> CheckOutOfBounds a b sz = Inl OutOfBounds"
  by (simp add: CheckOutOfBounds_def Let_def)

lemma CheckOutOfBounds_iff:
  assumes a: "a < 2 ^ 64"
  shows "CheckOutOfBounds a b sz = OK \<longleftrightarrow> a + unat b \<le> sz \<and> a + unat b < 2 ^ 64"
proof -
  have b: "unat b < 2 ^ 64" using unsigned_less [of b] by simp
  show ?thesis
  proof (cases "a + unat b < 2 ^ 64")
    case True
    then show ?thesis by (auto simp: CheckOutOfBounds_def Let_def)
  next
    case False
    then have "(a + unat b) mod 2 ^ 64 = a + unat b - 2 ^ 64"
      using a b by (simp add: mod_if)
    moreover have "a + unat b - 2 ^ 64 < a" using a b False by linarith
    ultimately show ?thesis using False by (auto simp: CheckOutOfBounds_def Let_def)
  qed
qed

text \<open>
  Claim C3. With \<open>osize\<close> the declared output size (the first VarInt of the stream):
  \<open>CheckPreamble\<close> rejects every stream whose encoded size exceeds \<open>osize\<close> by more
  than 65536 and every stream with \<open>osize > 2 ^ 28\<close>; when the two VarInts of the
  preamble pass their own range checks, the outcome is decided by these two limits alone,
  so an encoded size of at most \<open>osize + 65536\<close> (the bound included) with
  \<open>osize \<le> 2 ^ 28\<close> is accepted.
\<close>

theorem CheckPreamble_limits:
  "case DecodeVarInt data 0 of (osize, pos1) \<Rightarrow>
   case DecodeVarInt data pos1 of (csize, pos2) \<Rightarrow>
     (unat osize + 65536 < enc_size \<longrightarrow> CheckPreamble data enc_size \<noteq> OK)
   \<and> (2 ^ 28 < unat osize \<longrightarrow> CheckPreamble data enc_size \<noteq> OK)
   \<and> (CheckIs32Bit osize = OK \<and> pos1 < length data \<and> CheckIs32Bit csize = OK
        \<and> CheckOutOfBounds pos2 csize (length data) = OK
      \<longrightarrow> CheckPreamble data enc_size =
            (if unat osize + 65536 < enc_size then Inl MalformedICC
             else if 2 ^ 28 < unat osize then Inl DecodedICCTooLarge
             else OK))"
proof -
  obtain osize pos1 where d1: "DecodeVarInt data 0 = (osize, pos1)"
    by (cases "DecodeVarInt data 0")
  obtain csize pos2 where d2: "DecodeVarInt data pos1 = (csize, pos2)"
    by (cases "DecodeVarInt data pos1")
  have add: "unat osize < 2 ^ 32 \<Longrightarrow> unat (osize + 65536) = unat osize + 65536"
    by (simp add: unat_word_ariths)
  show ?thesis
    unfolding d1 d2 prod.case
    using add CheckIs32Bit_iff [of osize]
    by (auto simp: CheckPreamble_def d1 d2 Let_def)
qed

theorem CheckPreamble_limits_witness:
  "CheckPreamble [0x80, 0x80, 0x04, 0x01, 0x00] 131072 = OK
   \<and> CheckPreamble [0x80, 0x80, 0x04, 0x01, 0x00] 131073 = Inl MalformedICC
   \<and> CheckPreamble [0x81, 0x80, 0x80, 0x80, 0x01, 0x01, 0x00] 7 = Inl DecodedICCTooLarge"
proof -
  let ?d = "[0x80, 0x80, 0x04, 0x01, 0x00] :: u8 list"
  let ?e = "[0x81, 0x80, 0x80, 0x80, 0x01, 0x01, 0x00] :: u8 list"
  have d1: "DecodeVarInt ?d 0 = (65536, 3)"
    by (simp add: DecodeVarInt_def DecodeVarInt_loop.simps)
  have d2: "DecodeVarInt ?d 3 = (1, 4)"
    by (simp add: DecodeVarInt_def DecodeVarInt_loop.simps)
  have e1: "DecodeVarInt ?e 0 = (268435457, 5)"
    by (simp add: DecodeVarInt_def DecodeVarInt_loop.simps)
  have e2: "DecodeVarInt ?e 5 = (1, 6)"
    by (simp add: DecodeVarInt_def DecodeVarInt_loop.simps)
  have c: "CheckIs32Bit 65536 = OK" "CheckIs32Bit 1 = OK" "CheckIs32Bit 268435457 = OK"
    "CheckOutOfBounds 4 1 (length ?d) = OK" "CheckOutOfBounds 6 1 (length ?e) = OK"
    by (simp_all add: CheckIs32Bit_def CheckOutOfBounds_def)
  show ?thesis
    using CheckPreamble_limits [where data = ?d and enc_size = 131072]
      CheckPreamble_limits [where data = ?d and enc_size = 131073]
      CheckPreamble_limits [where data = ?e and enc_size = 7]
    by (simp add: d1 d2 e1 e2 c CheckOutOfBounds_def)
qed

section \<open>Properties of \<open>UnpredictICC\<close>\<close>



lemma error_of_fail [simp]: "error_of (fail e s) = Some e"
  by (simp add: error_of_def fail_def)

lemma error_of_Inr [simp]: "error_of (Inr x) = None"
  by (simp add: error_of_def)

lemma predict_data_error:
  "error_of (predict_data c enc ce width ord stride s) \<in> {None, Some OutOfBounds}"
  by (simp add: predict_data_def Let_def split: prod.splits)

lemma stride_check_iff:
  "(res = [] \<or> (length res - 1) div 4 < n) \<longleftrightarrow> length res \<le> 4 * n"
  by (cases res) auto

lemma header_loop_Return:
  "header_loop c enc osize ce i h s = Inr (Return s') \<Longrightarrow>
     length (st_result s') = unat osize \<and> st_cpos s' = ce \<and> st_pos s' = length enc"
proof (induction c enc osize ce i h s rule: header_loop.induct)
  case (1 c enc osize commands_end i header s)
  from "1.prems" show ?case
    apply (subst (asm) header_loop.simps)
    apply (simp add: fail_def Let_def split: if_splits)
    apply (rule "1.IH")
    apply simp_all
    done
qed

lemma main_loop_end:
  "main_loop c enc osize ce s = Inr s' \<Longrightarrow> st_cpos s' = ce"
proof (induction c enc osize ce s rule: main_loop.induct)
  case (1 c enc osize commands_end s)
  from "1.prems" show ?case
    apply (subst (asm) main_loop.simps)
    apply (simp add: fail_def split: if_splits sum.splits)
    apply (rule "1.IH")
    apply simp_all
    done
qed

lemma replicate_numeral: "replicate (numeral k) x = x # replicate (pred_numeral k) x"
  by (simp add: numeral_eq_Suc)

lemmas unpredict_eval = replicate_numeral
  UnpredictICC_run_def DecodeVarInt_def DecodeVarInt_loop.simps
  CheckIs32Bit_def CheckOutOfBounds_def header_loop.simps jxl_icc_common_def fail_def
  tag_list_def main_loop.simps main_step_def command_predict_def predict_stride_def
  predict_data_def predict_loop.simps Let_def

lemma example_stream_run:
  "UnpredictICC_run jxl_icc_common example_stream
     = Inr \<lparr>st_result = example_profile, st_pos = 140, st_cpos = 8\<rparr>"
  by (simp add: unpredict_eval example_stream_def example_profile_def)

lemma example_stream_stride_run:
  "UnpredictICC_run jxl_icc_common example_stream_stride
     = Inl (InvalidStride, replicate 128 0)"
  by (simp add: unpredict_eval example_stream_stride_def)

lemma example_stream_quarter_run:
  "UnpredictICC_run jxl_icc_common example_stream_quarter
     = Inl (InvalidStride, replicate 128 0)"
  by (simp add: unpredict_eval example_stream_quarter_def)

lemma example_stream_varints:
  "DecodeVarInt example_stream 0 = (132, 2)"
  "DecodeVarInt example_stream 2 = (5, 3)"
  "DecodeVarInt example_stream 6 = (31, 7)"
  "DecodeVarInt example_stream_stride 0 = (200, 2)"
  "DecodeVarInt example_stream_stride 6 = (32, 7)"
  by (simp_all add: DecodeVarInt_def DecodeVarInt_loop.simps example_stream_def
      example_stream_stride_def)

text \<open>
  Claim C2. When \<open>UnpredictICC\<close> returns success, the buffer it was given was empty,
  the output has exactly the declared size (the first VarInt), the commands cursor stands
  at the end of the commands (the position after the second VarInt plus the declared
  commands size), and the data cursor stands at the end of the input. Read the other way
  round: if one of the three conditions fails, the status is an error.
\<close>

theorem UnpredictICC_success:
  assumes "UnpredictICC c enc result = (OK, out)"
  shows "case DecodeVarInt enc 0 of (osize, pos1) \<Rightarrow>
         case DecodeVarInt enc pos1 of (csize, pos2) \<Rightarrow>
           result = [] \<and>
           (\<exists>s. UnpredictICC_run c enc = Inr s \<and> st_result s = out
                \<and> length out = unat osize
                \<and> st_cpos s = pos2 + unat csize
                \<and> st_pos s = length enc)"
proof -
  obtain osize pos1 where d1: "DecodeVarInt enc 0 = (osize, pos1)"
    by (cases "DecodeVarInt enc 0")
  obtain csize pos2 where d2: "DecodeVarInt enc pos1 = (csize, pos2)"
    by (cases "DecodeVarInt enc pos1")
  from assms have r: "result = []"
    by (auto simp: UnpredictICC_def split: if_splits)
  from assms r obtain s where run: "UnpredictICC_run c enc = Inr s" and out: "st_result s = out"
    by (auto simp: UnpredictICC_def split: sum.splits prod.splits)
  let ?ce = "pos2 + unat csize"
  let ?s0 = "\<lparr>st_result = [], st_pos = ?ce, st_cpos = pos2\<rparr>"
  let ?h = "header_loop c enc osize ?ce 0 (ICCInitialHeaderPrediction c osize) ?s0"
  from run have "length (st_result s) = unat osize \<and> st_cpos s = ?ce \<and> st_pos s = length enc"
  proof (cases ?h)
    case (Inl e)
    with run show ?thesis
      by (simp add: UnpredictICC_run_def d1 d2 Let_def split: if_splits)
  next
    case (Inr f)
    show ?thesis
    proof (cases f)
      case (Return s1)
      with run Inr have "s1 = s"
        by (simp add: UnpredictICC_run_def d1 d2 Let_def split: if_splits)
      with header_loop_Return [of c enc osize ?ce 0 _ ?s0 s1] Inr Return show ?thesis by simp
    next
      case (Proceed s1)
      with run Inr obtain s2 where m: "main_loop c enc osize ?ce s2 = Inr s"
        and f: "st_pos s = length enc" "length (st_result s) = unat osize"
        by (auto simp: UnpredictICC_run_def d1 d2 Let_def fail_def split: if_splits sum.splits)
      from main_loop_end [OF m] f show ?thesis by simp
    qed
  qed
  with r run out show ?thesis unfolding d1 d2 prod.case by auto
qed

theorem UnpredictICC_success_witness:
  "UnpredictICC jxl_icc_common example_stream [] = (OK, example_profile)
   \<and> length example_profile = 132
   \<and> (\<exists>s. UnpredictICC_run jxl_icc_common example_stream = Inr s
          \<and> st_cpos s = 3 + 5 \<and> st_pos s = length example_stream)"
proof -
  have run: "UnpredictICC jxl_icc_common example_stream [] = (OK, example_profile)"
    by (simp add: UnpredictICC_def example_stream_run)
  from UnpredictICC_success [OF run] show ?thesis
    unfolding example_stream_varints prod.case using run by auto
qed

text \<open>
  Claim C7, as the code has it. The stride of a PREDICT command is checked against the
  number of bytes reconstructed so far, not against the declared output size. For a
  PREDICT command whose flags byte can be read and has a valid width and order, and whose
  explicit stride (flag bit 16) can be read: the command fails with the invalid-stride
  error exactly when the stride is below the width or four times the stride is at least
  the current length of the output. The main loop, which reads the command byte, first
  fails with the invalid-result-size error when the output is longer than the declared
  size; so in a decode with declared size \<open>osize\<close> a PREDICT command whose stride is at
  least a quarter of \<open>osize\<close> never passes: the loop fails with the invalid-stride error,
  or with the invalid-result-size error if the output already exceeds \<open>osize\<close>. A stride
  that is at least the width and less than a quarter of the current output length passes:
  the command then succeeds or fails only for running out of input.
\<close>

theorem command_predict_stride:
  assumes "CheckOutOfBounds (st_cpos s) 2 commands_end = OK"
    and "width = unat (enc ! st_cpos s AND 3) + 1"
    and "width \<noteq> 3"
    and "unat (drop_bit 2 (enc ! st_cpos s AND 12)) \<noteq> 3"
    and "enc ! st_cpos s AND 16 \<noteq> 0 \<longrightarrow> st_cpos s + 1 < commands_end"
    and "stride = (if enc ! st_cpos s AND 16 \<noteq> 0 then fst (DecodeVarInt enc (st_cpos s + 1))
                   else word_of_nat width)"
  shows "(error_of (command_predict c enc commands_end s) = Some InvalidStride
            \<longleftrightarrow> unat stride < width \<or> length (st_result s) \<le> 4 * unat stride)
       \<and> (st_cpos t < commands_end \<and> unat (enc ! st_cpos t) = kCommandPredict c
            \<and> kCommandPredict c \<notin> {kCommandInsert c, kCommandShuffle2 c, kCommandShuffle4 c}
            \<and> s = t\<lparr>st_cpos := st_cpos t + 1\<rparr> \<and> unat (osize :: u64) \<le> 4 * unat stride
            \<longrightarrow> error_of (main_loop c enc osize commands_end t)
                = Some (if unat osize < length (st_result t) then InvalidResultSize
                        else InvalidStride))
       \<and> (width \<le> unat stride \<and> 4 * unat stride < length (st_result s)
            \<longrightarrow> error_of (command_predict c enc commands_end s) \<in> {None, Some OutOfBounds})"
proof -
  let ?flags = "enc ! st_cpos s"
  let ?s1 = "s\<lparr>st_cpos := st_cpos s + 1\<rparr>"
  define ord' where "ord' = unat (drop_bit 2 (?flags AND 12))"
  have w: "unat (word_of_nat width :: u64) = width"
  proof -
    have "unat (?flags AND 3) \<le> unat (3 :: u8)"
      by (rule word_and_le1 [THEN word_le_nat_alt [THEN iffD1]])
    then have "width \<le> 4" using assms(2) by simp
    then show ?thesis by (simp add: unsigned_of_nat take_bit_nat_eq_self)
  qed
  have cp: "command_predict c enc commands_end s =
      (case predict_stride enc commands_end ?flags width ?s1 of
         Inl e \<Rightarrow> Inl e
       | Inr (stride, s2) \<Rightarrow>
           if st_result s2 = [] \<or> (length (st_result s2) - 1) div 4 < unat stride
           then fail InvalidStride s2
           else predict_data c enc commands_end width ord' stride s2)"
    unfolding command_predict_def Let_def assms(2) [symmetric] ord'_def
    using assms(1,3,4) by (simp only: if_False simp_thms)
  obtain v p where d: "DecodeVarInt enc (st_cpos s + 1) = (v, p)"
    by (cases "DecodeVarInt enc (st_cpos s + 1)")
  define s2 where "s2 = (if ?flags AND 16 \<noteq> 0 then ?s1\<lparr>st_cpos := p\<rparr> else ?s1)"
  have res: "st_result s2 = st_result s" by (simp add: s2_def)
  have ps: "predict_stride enc commands_end ?flags width ?s1 =
        (if unat stride < width then fail InvalidStride s2 else Inr (stride, s2))"
  proof (cases "?flags AND 16 \<noteq> 0")
    case True
    then have "stride = v" using assms(6) d by simp
    then show ?thesis
      using True assms(5) d unfolding predict_stride_def s2_def by simp
  next
    case False
    then have "stride = word_of_nat width" using assms(6) by simp
    then show ?thesis
      using False w unfolding predict_stride_def s2_def by simp
  qed
  note pd = predict_data_error [of c enc commands_end width ord' stride s2]
  have main: "error_of (command_predict c enc commands_end s) = Some InvalidStride
            \<longleftrightarrow> unat stride < width \<or> length (st_result s) \<le> 4 * unat stride"
    using pd unfolding cp ps stride_check_iff
    by (auto simp: res fail_def error_of_def)
  have rest: "width \<le> unat stride \<and> 4 * unat stride < length (st_result s)
            \<longrightarrow> error_of (command_predict c enc commands_end s) \<in> {None, Some OutOfBounds}"
    using pd unfolding cp ps stride_check_iff
    by (auto simp: res fail_def error_of_def)
  have loop: "error_of (main_loop c enc osize commands_end t)
                = Some (if unat osize < length (st_result t) then InvalidResultSize
                        else InvalidStride)"
    if h: "st_cpos t < commands_end \<and> unat (enc ! st_cpos t) = kCommandPredict c
            \<and> kCommandPredict c \<notin> {kCommandInsert c, kCommandShuffle2 c, kCommandShuffle4 c}
            \<and> s = t\<lparr>st_cpos := st_cpos t + 1\<rparr> \<and> unat osize \<le> 4 * unat stride"
  proof (cases "unat osize < length (st_result t)")
    case True
    then show ?thesis by (subst main_loop.simps) simp
  next
    case False
    have st: "main_step c enc commands_end t = command_predict c enc commands_end s"
      using h by (simp add: main_step_def Let_def)
    have "length (st_result s) \<le> 4 * unat stride" using h False by simp
    with main have "error_of (command_predict c enc commands_end s) = Some InvalidStride"
      by simp
    then obtain buf where "command_predict c enc commands_end s = Inl (InvalidStride, buf)"
      by (auto simp: error_of_def split: sum.splits)
    then show ?thesis
      using h False by (subst main_loop.simps) (simp add: st error_of_def)
  qed
  from main rest loop show ?thesis by blast
qed

theorem command_predict_stride_witness:
  "fst (DecodeVarInt example_stream_quarter 0) = 200
   \<and> fst (DecodeVarInt example_stream_quarter 6) = 50
   \<and> fst (UnpredictICC jxl_icc_common example_stream_quarter []) = Inl InvalidStride
   \<and> error_of (command_predict jxl_icc_common example_stream_quarter 7
       \<lparr>st_result = replicate 128 0, st_pos = 135, st_cpos = 5\<rparr>) = Some InvalidStride
   \<and> error_of (main_loop jxl_icc_common example_stream_quarter 200 7
       \<lparr>st_result = replicate 128 0, st_pos = 135, st_cpos = 4\<rparr>) = Some InvalidStride
   \<and> error_of (command_predict jxl_icc_common example_stream 8
       \<lparr>st_result = replicate 128 0, st_pos = 136, st_cpos = 5\<rparr>) \<in> {None, Some OutOfBounds}"
proof -
  let ?tb = "\<lparr>st_result = replicate 128 0, st_pos = 135, st_cpos = 4\<rparr>"
  let ?sb = "\<lparr>st_result = replicate 128 0, st_pos = 135, st_cpos = 5\<rparr>"
  let ?sg = "\<lparr>st_result = replicate 128 0, st_pos = 136, st_cpos = 5\<rparr>"
  have fb: "example_stream_quarter ! 5 = 0x10" "example_stream_quarter ! 4 = 0x04"
    and fg: "example_stream ! 5 = 0x10"
    by (simp_all add: example_stream_def example_stream_quarter_def)
  have v: "DecodeVarInt example_stream_quarter 0 = (200, 2)"
    "DecodeVarInt example_stream_quarter 6 = (50, 7)"
    by (simp_all add: DecodeVarInt_def DecodeVarInt_loop.simps example_stream_quarter_def)
  have b: "error_of (command_predict jxl_icc_common example_stream_quarter 7 ?sb)
             = Some InvalidStride
         \<and> error_of (main_loop jxl_icc_common example_stream_quarter 200 7 ?tb)
             = Some InvalidStride"
    using command_predict_stride [where s = ?sb and commands_end = 7
        and enc = example_stream_quarter and width = 1 and stride = 50 and osize = 200
        and c = jxl_icc_common and t = ?tb]
    by (simp add: CheckOutOfBounds_def fb v jxl_icc_common_def)
  have g: "error_of (command_predict jxl_icc_common example_stream 8 ?sg)
           \<in> {None, Some OutOfBounds}"
    using command_predict_stride [where s = ?sg and commands_end = 8
        and enc = example_stream and width = 1 and stride = 31
        and c = jxl_icc_common]
    by (simp add: CheckOutOfBounds_def fg example_stream_varints)
  have u: "fst (UnpredictICC jxl_icc_common example_stream_quarter []) = Inl InvalidStride"
    by (simp add: UnpredictICC_def example_stream_quarter_run)
  from b g v u show ?thesis by simp
qed

text \<open>
  Claim C7 as stated fails: in \<open>example_stream_stride\<close> the declared size is 200 and
  the PREDICT command has width 1, order 0 and stride 32, which is below \<open>200 / 4\<close>;
  the decoder rejects it with the invalid-stride error, because only 128 bytes have been
  reconstructed when the command is read.
\<close>

theorem predict_stride_counterexample:
  "fst (DecodeVarInt example_stream_stride 0) = 200
   \<and> example_stream_stride ! 5 = 0x10
   \<and> fst (DecodeVarInt example_stream_stride 6) = 32
   \<and> (32 :: nat) < 200 div 4
   \<and> fst (UnpredictICC jxl_icc_common example_stream_stride []) = Inl InvalidStride"
  by (simp add: example_stream_varints UnpredictICC_def example_stream_stride_run)
     (simp add: example_stream_stride_def)

text \<open>
  Claim C10. Called with a non-empty output buffer, \<open>UnpredictICC\<close> fails at once with
  "result must be empty initially", whatever the input is, and leaves the buffer as it
  was.
\<close>

theorem UnpredictICC_result_not_empty:
  "result \<noteq> [] \<Longrightarrow> UnpredictICC c enc result = (Inl ResultNotEmpty, result)"
  by (simp add: UnpredictICC_def)

theorem UnpredictICC_result_not_empty_witness:
  "UnpredictICC jxl_icc_common example_stream [0x2A] = (Inl ResultNotEmpty, [0x2A])"
  using UnpredictICC_result_not_empty [of "[0x2A]" jxl_icc_common example_stream]
  by simp

section \<open>Properties of the Lehmer code\<close>

subsection \<open>The lowest set bit\<close>

lemmas lehmer_eval = ComputeLehmerCode_def DecodeLehmerCode_def fenwick_sum.simps fenwick_add.simps
  select_loop.simps mark_used.simps ValueOfLowest1Bit_def CeilLog2Nonzero.simps Let_def

lemma lb_0 [simp]: "lb 0 = 0" by (simp add: lb.simps)

lemma lb_odd: "odd k \<Longrightarrow> lb k = 1" by (subst lb.simps) (auto elim: oddE)

lemma lb_double: "0 < k \<Longrightarrow> lb (2 * k) = 2 * lb k" by (subst lb.simps) simp

lemma lb_pos: "0 < k \<Longrightarrow> 0 < lb k"
proof (induction k rule: less_induct)
  case (less k)
  show ?case
  proof (cases "odd k")
    case True then show ?thesis by (simp add: lb_odd)
  next
    case False
    then obtain q where q: "k = 2 * q" by (auto elim: evenE)
    with less.prems have "0 < q" by simp
    moreover have "q < k" using q less.prems by simp
    ultimately have "0 < lb q" using less.IH by blast
    then show ?thesis using q \<open>0 < q\<close> by (simp add: lb_double)
  qed
qed

lemma lb_le: "lb k \<le> k"
proof (induction k rule: less_induct)
  case (less k)
  show ?case
  proof (cases "k = 0")
    case True then show ?thesis by simp
  next
    case nz: False
    show ?thesis
    proof (cases "odd k")
      case True then show ?thesis using nz by (simp add: lb_odd)
    next
      case False
      then obtain q where q: "k = 2 * q" by (auto elim: evenE)
      with nz have "0 < q" "q < k" by simp_all
      then have "lb q \<le> q" using less.IH by blast
      then show ?thesis using q \<open>0 < q\<close> by (simp add: lb_double)
    qed
  qed
qed

lemma lb_add_pow2: "2 ^ Suc j dvd next \<Longrightarrow> lb (next + 2 ^ j) = 2 ^ j"
proof (induction j arbitrary: "next")
  case 0
  then have "odd (next + 2 ^ 0)" by simp
  then show ?case by (simp add: lb_odd)
next
  case (Suc j)
  from Suc.prems obtain m where m: "next = 2 * m" and d: "2 ^ Suc j dvd m"
    by (auto elim!: dvdE simp: mult.assoc)
  have "next + 2 ^ Suc j = 2 * (m + 2 ^ j)" using m by simp
  moreover have "0 < m + (2::nat) ^ j" by simp
  ultimately have "lb (next + 2 ^ Suc j) = 2 * lb (m + 2 ^ j)"
    using lb_double [of "m + 2 ^ j"] by simp
  then show ?case using Suc.IH [OF d] by simp
qed

text \<open>The range of node k: indices in (k - lb k, k].\<close>

lemma lb_step:
  "1 \<le> i \<Longrightarrow> i < k \<Longrightarrow> (k - lb k < i) \<longleftrightarrow> (k - lb k < i + lb i \<and> i + lb i \<le> k)"
proof (induction k arbitrary: i rule: less_induct)
  case (less k)
  show ?case
  proof (cases "odd k")
    case True
    then have lk: "lb k = 1" by (rule lb_odd)
    have "even (i + lb i)"
    proof (cases "odd i")
      case True then show ?thesis by (simp add: lb_odd)
    next
      case False
      then obtain j where j: "i = 2 * j" by (auto elim: evenE)
      with less.prems have "0 < j" by simp
      then show ?thesis using j by (simp add: lb_double)
    qed
    then have "i + lb i \<noteq> k" using True by auto
    then show ?thesis using lk less.prems by auto
  next
    case False
    then obtain q where q: "k = 2 * q" by (auto elim: evenE)
    with less.prems have qpos: "0 < q" by simp
    have lk: "lb k = 2 * lb q" using q qpos by (simp add: lb_double)
    have lq: "lb q \<le> q" by (rule lb_le)
    show ?thesis
    proof (cases "odd i")
      case True
      then have li: "lb i = 1" by (rule lb_odd)
      from True obtain j where j: "i = 2 * j + 1" by (auto elim: oddE)
      have li': "lb (Suc (2 * j)) = 1" using li j by simp
      have lk': "lb (2 * q) = 2 * lb q" using lk q by simp
      show ?thesis using less.prems lq unfolding q j by (simp add: li' lk') arith
    next
      case False
      then obtain j where j: "i = 2 * j" by (auto elim: evenE)
      with less.prems have jpos: "1 \<le> j" and jq: "j < q" using q by simp_all
      have li: "lb i = 2 * lb j" using j jpos by (simp add: lb_double)
      have "q < k" using q qpos by simp
      from less.IH [OF this jpos jq]
      have "(q - lb q < j) \<longleftrightarrow> (q - lb q < j + lb j \<and> j + lb j \<le> q)" .
      moreover have li': "lb (2 * j) = 2 * lb j" using li j by simp
      moreover have lk': "lb (2 * q) = 2 * lb q" using lk q by simp
      ultimately show ?thesis using lq unfolding q j by (simp add: li' lk') arith
    qed
  qed
qed

lemma int_and_neg: "0 < n \<Longrightarrow> int n AND - int n = int (lb n)"
proof (induction n rule: less_induct)
  case (less n)
  show ?case
  proof (cases "odd n")
    case True
    then obtain q where q: "n = 2 * q + 1" by (auto elim: oddE)
    have d1: "int n div 2 = int q" using q by simp
    have d2: "(- int n) div 2 = NOT (int q)" using q by (simp add: not_int_def)
    have "int n AND - int n = 1 + 2 * (int q AND NOT (int q))"
      by (subst and_int_rec) (simp add: d1 d2 True)
    then show ?thesis using True by (simp add: lb_odd)
  next
    case False
    then obtain q where q: "n = 2 * q" by (auto elim: evenE)
    with less.prems have qpos: "0 < q" and qn: "q < n" by simp_all
    have d1: "int n div 2 = int q" using q by simp
    have d2: "(- int n) div 2 = - int q" using q by simp
    have "int n AND - int n = 2 * (int q AND - int q)"
      by (subst and_int_rec) (simp add: d1 d2 False)
    also have "\<dots> = 2 * int (lb q)" using less.IH [OF qn qpos] by simp
    finally show ?thesis using q qpos by (simp add: lb_double)
  qed
qed

lemma nat_and_pred: "0 < n \<Longrightarrow> n AND (n - 1) = n - lb n"
proof (induction n rule: less_induct)
  case (less n)
  show ?case
  proof (cases "odd n")
    case True
    then obtain q where q: "n = 2 * q + 1" by (auto elim: oddE)
    have "n AND (n - 1) = 2 * (q AND q)"
      by (subst and_nat_rec) (simp add: q)
    then show ?thesis using True q by (simp add: lb_odd)
  next
    case False
    then obtain q where q: "n = 2 * q" by (auto elim: evenE)
    with less.prems have qpos: "0 < q" and qn: "q < n" by simp_all
    have d: "(2 * q - Suc 0) div 2 = q - Suc 0" using qpos by (cases q) simp_all
    have "n AND (n - 1) = 2 * (q AND (q - 1))"
      by (subst and_nat_rec) (simp add: q d)
    also have "\<dots> = 2 * (q - lb q)" using less.IH [OF qn qpos] by simp
    finally show ?thesis using q qpos by (simp add: lb_double)
  qed
qed

lemma unat_and_pred:
  fixes w :: "'a::len word"
  assumes "w \<noteq> 0"
  shows "unat (w AND (w - 1)) = unat w - lb (unat w)"
proof -
  have pos: "0 < unat w" using assms by (simp add: unat_gt_0)
  have "unat (w AND (w - 1)) = unat w AND unat (w - 1)" by (simp add: unsigned_and_eq)
  also have "\<dots> = unat w AND (unat w - 1)" using assms by (simp add: unat_minus_one)
  also have "\<dots> = unat w - lb (unat w)" using pos by (rule nat_and_pred)
  finally show ?thesis .
qed

lemma unat_ValueOfLowest1Bit:
  fixes w :: "'a::len word"
  shows "unat (ValueOfLowest1Bit w) = lb (unat w)"
proof (cases "w = 0")
  case True then show ?thesis by (simp add: ValueOfLowest1Bit_def)
next
  case False
  then have pos: "0 < unat w" by (simp add: unat_gt_0)
  have lt: "int (lb (unat w)) < 2 ^ LENGTH('a)"
  proof -
    have "unat w < 2 ^ LENGTH('a)" by (rule unsigned_less)
    with lb_le [of "unat w"] have "lb (unat w) < 2 ^ LENGTH('a)" by (rule le_less_trans)
    then have "int (lb (unat w)) < int (2 ^ LENGTH('a))" by (simp only: of_nat_less_iff)
    then show ?thesis by simp
  qed
  have "uint (w AND - w) = uint w AND take_bit LENGTH('a) (- uint w)"
    by (simp add: uint_and uint_word_arith_bintrs)
  also have "\<dots> = take_bit LENGTH('a) (uint w) AND take_bit LENGTH('a) (- uint w)"
    by (simp only: bintr_uint [OF order_refl])
  also have "\<dots> = take_bit LENGTH('a) (uint w AND - uint w)"
    by (simp add: take_bit_and)
  also have "uint w AND - uint w = int (lb (unat w))"
    unfolding uint_nat by (rule int_and_neg [OF pos])
  also have "take_bit LENGTH('a) (int (lb (unat w))) = int (lb (unat w))"
    using lt by (simp add: take_bit_int_eq_self)
  finally have u: "uint (w AND - w) = int (lb (unat w))" .
  have "unat (w AND - w) = nat (uint (w AND - w))" by (rule unat_eq_nat_uint)
  then show ?thesis unfolding ValueOfLowest1Bit_def u by simp
qed

subsection \<open>Counting in intervals\<close>

lemma cnt_finite: "finite {v :: nat. a \<le> v \<and> v < b \<and> P v}"
  by (rule finite_subset [of _ "{..<b}"]) auto

lemma cnt_empty [simp]: "b \<le> a \<Longrightarrow> cnt P a b = 0"
  by (auto simp: cnt_def)

lemma cnt_split: "a \<le> b \<Longrightarrow> b \<le> c \<Longrightarrow> cnt P a c = cnt P a b + cnt P b c"
proof -
  assume ab: "a \<le> b" and bc: "b \<le> c"
  have "{v. a \<le> v \<and> v < c \<and> P v} = {v. a \<le> v \<and> v < b \<and> P v} \<union> {v. b \<le> v \<and> v < c \<and> P v}"
    using ab bc by auto
  moreover have "{v. a \<le> v \<and> v < b \<and> P v} \<inter> {v. b \<le> v \<and> v < c \<and> P v} = {}" by auto
  ultimately show ?thesis
    unfolding cnt_def by (simp add: card_Un_disjoint cnt_finite)
qed

lemma cnt_single: "cnt P a (Suc a) = (if P a then 1 else 0)"
proof -
  have "{v. a \<le> v \<and> v < Suc a \<and> P v} = (if P a then {a} else {})" by (auto simp: less_Suc_eq_le)
  then show ?thesis by (simp add: cnt_def)
qed

lemma cnt_compl: "cnt P a b + cnt (\<lambda>v. \<not> P v) a b = b - a"
proof -
  have "{v. a \<le> v \<and> v < b \<and> P v} \<union> {v. a \<le> v \<and> v < b \<and> \<not> P v} = {a..<b}" by auto
  moreover have "{v. a \<le> v \<and> v < b \<and> P v} \<inter> {v. a \<le> v \<and> v < b \<and> \<not> P v} = {}" by auto
  ultimately have "card {a..<b} = cnt P a b + cnt (\<lambda>v. \<not> P v) a b"
    unfolding cnt_def by (metis card_Un_disjoint cnt_finite)
  then show ?thesis by simp
qed

lemma cnt_le: "cnt P a b \<le> b - a"
  using cnt_compl [of P a b] by linarith

lemma cnt_mono: "b \<le> c \<Longrightarrow> cnt P a b \<le> cnt P a c"
  unfolding cnt_def by (rule card_mono [OF cnt_finite]) auto

lemma cnt_insert_in:
  "s \<notin> U \<Longrightarrow> cnt (\<lambda>v. v \<in> insert s U) a b
     = cnt (\<lambda>v. v \<in> U) a b + (if a \<le> s \<and> s < b then 1 else 0)"
proof (cases "a \<le> s \<and> s < b")
  case True
  assume n: "s \<notin> U"
  have "{v. a \<le> v \<and> v < b \<and> v \<in> insert s U} = insert s {v. a \<le> v \<and> v < b \<and> v \<in> U}"
    using True by auto
  moreover have "s \<notin> {v. a \<le> v \<and> v < b \<and> v \<in> U}" using n by simp
  ultimately show ?thesis using True unfolding cnt_def by (simp add: cnt_finite)
next
  case False
  have "{v. a \<le> v \<and> v < b \<and> v \<in> insert s U} = {v. a \<le> v \<and> v < b \<and> v \<in> U}"
    using False by auto
  then show ?thesis using False unfolding cnt_def by simp
qed

lemma cnt_insert_out:
  "s \<notin> U \<Longrightarrow> cnt (\<lambda>v. v \<notin> insert s U) a b
     = cnt (\<lambda>v. v \<notin> U) a b - (if a \<le> s \<and> s < b then 1 else 0)"
  using cnt_insert_in [of s U a b] cnt_compl [of "\<lambda>v. v \<in> U" a b]
    cnt_compl [of "\<lambda>v. v \<in> insert s U" a b]
  by (simp split: if_splits)

subsection \<open>The encoder\<close>

lemma fenwick_sum_correct:
  "fen_inv n U temp \<Longrightarrow> unat i \<le> n \<Longrightarrow>
     fenwick_sum temp i penalty = Some (penalty + word_of_nat (cnt (\<lambda>v. v \<in> U) 0 (unat i)))"
proof (induction temp i penalty rule: fenwick_sum.induct)
  case (1 temp i penalty)
  show ?case
  proof (cases "i = 0")
    case True
    then show ?thesis by (subst fenwick_sum.simps) simp
  next
    case False
    then have pos: "1 \<le> unat i" by (simp add: unat_gt_0 Suc_leI)
    have len: "unat i < length temp" using "1.prems" by (simp add: fen_inv_def)
    let ?j = "i AND (i - 1)"
    have uj: "unat ?j = unat i - lb (unat i)" using False by (rule unat_and_pred)
    have ti: "unat (temp ! unat i) = cnt (\<lambda>v. v \<in> U) (unat i - lb (unat i)) (unat i)"
      using "1.prems" pos by (simp add: fen_inv_def)
    have "fenwick_sum temp ?j (penalty + temp ! unat i)
          = Some (penalty + temp ! unat i + word_of_nat (cnt (\<lambda>v. v \<in> U) 0 (unat ?j)))"
      using "1.IH" [OF False len "1.prems"(1)] "1.prems"(2) uj by simp
    moreover have "cnt (\<lambda>v. v \<in> U) 0 (unat i)
        = cnt (\<lambda>v. v \<in> U) 0 (unat ?j) + cnt (\<lambda>v. v \<in> U) (unat ?j) (unat i)"
      by (rule cnt_split) (simp_all add: uj)
    moreover have "temp ! unat i = word_of_nat (unat (temp ! unat i))" by simp
    ultimately show ?thesis
      using False len ti uj
      by (subst fenwick_sum.simps) (simp add: algebra_simps)
  qed
qed

lemma unat_add_lowbit:
  fixes i :: u32
  assumes "unat i \<le> n" "n < 2 ^ 31"
  shows "unat (i + ValueOfLowest1Bit i) = unat i + lb (unat i)"
proof -
  have "lb (unat i) \<le> unat i" by (rule lb_le)
  then have "unat i + unat (ValueOfLowest1Bit i) < 2 ^ LENGTH(32)"
    using assms by (simp add: unat_ValueOfLowest1Bit)
  then have "unat (i + ValueOfLowest1Bit i) = unat i + unat (ValueOfLowest1Bit i)"
    by (simp only: unat_add_lem)
  then show ?thesis by (simp add: unat_ValueOfLowest1Bit)
qed

lemma unat_plus1:
  fixes x :: u32
  assumes "unat x + 1 < 2 ^ 32"
  shows "unat (x + 1) = unat x + 1"
proof -
  have "unat x + unat (1 :: u32) < 2 ^ LENGTH(32)" using assms by simp
  then have "unat (x + 1) = unat x + unat (1 :: u32)" by (simp only: unat_add_lem)
  then show ?thesis by simp
qed

lemma unat_of_nat32: "s < 2 ^ 32 \<Longrightarrow> unat (word_of_nat s :: u32) = s"
  by (simp add: unsigned_of_nat take_bit_nat_eq_self)

lemma in_range_step:
  assumes "1 \<le> i"
  shows "(k - lb k < i \<and> i \<le> k) \<longleftrightarrow> (k = i \<or> (k - lb k < i + lb i \<and> i + lb i \<le> k))"
proof -
  have lp: "0 < lb i" using assms by (simp add: lb_pos)
  consider "k < i" | "k = i" | "i < k" by linarith
  then show ?thesis
  proof cases
    case 1 then show ?thesis by auto
  next
    case 2 then show ?thesis using lp assms by auto
  next
    case 3
    from lb_step [OF assms 3] show ?thesis using 3 by auto
  qed
qed

lemma fenwick_add_correct:
  assumes "length temp = n + 1" "1 \<le> unat i" "n < 2 ^ 31"
  shows "\<exists>temp'. fenwick_add n temp i = Some temp' \<and> length temp' = n + 1
           \<and> (\<forall>k\<le>n. temp' ! k = temp ! k + (if k - lb k < unat i \<and> unat i \<le> k then 1 else 0))"
  using assms
proof (induction "n + 1 - unat i" arbitrary: temp i rule: less_induct)
  case less
  show ?case
  proof (cases "unat i < n + 1")
    case False
    then have "fenwick_add n temp i = Some temp" by (subst fenwick_add.simps) simp
    then show ?thesis using False less.prems by auto
  next
    case True
    let ?t1 = "temp[unat i := temp ! unat i + 1]"
    let ?i' = "i + ValueOfLowest1Bit i"
    have ui: "unat ?i' = unat i + lb (unat i)"
      using True less.prems(3) by (intro unat_add_lowbit [of _ n]) simp_all
    have lp: "0 < lb (unat i)" using less.prems(2) by (simp add: lb_pos)
    have "n + 1 - unat ?i' < n + 1 - unat i" using ui lp True by simp
    moreover have "length ?t1 = n + 1" using less.prems by simp
    moreover have "1 \<le> unat ?i'" using ui less.prems by simp
    ultimately have "\<exists>temp'. fenwick_add n ?t1 ?i' = Some temp' \<and> length temp' = n + 1
           \<and> (\<forall>k\<le>n. temp' ! k = ?t1 ! k + (if k - lb k < unat ?i' \<and> unat ?i' \<le> k then 1 else 0))"
      using less.prems(3) by (intro less.hyps)
    then obtain temp' where r: "fenwick_add n ?t1 ?i' = Some temp'"
      and l: "length temp' = n + 1"
      and v: "\<And>k. k \<le> n \<Longrightarrow> temp' ! k = ?t1 ! k + (if k - lb k < unat ?i' \<and> unat ?i' \<le> k then 1 else 0)"
      by blast
    have "fenwick_add n temp i = Some temp'"
      using True less.prems(1) r by (subst fenwick_add.simps) simp
    moreover have "\<forall>k\<le>n. temp' ! k = temp ! k + (if k - lb k < unat i \<and> unat i \<le> k then 1 else 0)"
    proof (intro allI impI)
      fix k assume k: "k \<le> n"
      let ?In = "k - lb k < unat i \<and> unat i \<le> k"
      let ?In' = "k - lb k < unat i + lb (unat i) \<and> unat i + lb (unat i) \<le> k"
      have vk: "temp' ! k = ?t1 ! k + (if ?In' then 1 else 0)"
        using v [OF k] unfolding ui .
      have step: "?In \<longleftrightarrow> (k = unat i \<or> ?In')"
        by (rule in_range_step [OF less.prems(2)])
      show "temp' ! k = temp ! k + (if ?In then 1 else 0)"
      proof (cases "k = unat i")
        case eq: True
        have "\<not> ?In'" using eq lp by simp
        moreover have "?In" using step eq by blast
        moreover have "?t1 ! k = temp ! k + 1" using eq k less.prems(1) by simp
        ultimately show ?thesis using vk by simp
      next
        case ne: False
        have "?t1 ! k = temp ! k" using ne by simp
        moreover have "?In \<longleftrightarrow> ?In'" using step ne by blast
        ultimately show ?thesis using vk by simp
      qed
    qed
    ultimately show ?thesis using l by blast
  qed
qed

lemma fen_inv_add:
  assumes inv: "fen_inv n U temp" and s: "s \<notin> U" "s < n" and n: "n < 2 ^ 31"
  shows "\<exists>temp'. fenwick_add n temp (word_of_nat s + 1) = Some temp' \<and> fen_inv n (insert s U) temp'"
proof -
  let ?i = "word_of_nat s + 1 :: u32"
  have us: "unat ?i = s + 1"
  proof -
    have "s < 2 ^ 32" using s n by simp
    then have u: "unat (word_of_nat s :: u32) = s" by (rule unat_of_nat32)
    have "unat (word_of_nat s :: u32) + 1 < 2 ^ 32" unfolding u using s n by simp
    from unat_plus1 [OF this] show ?thesis unfolding u .
  qed
  from fenwick_add_correct [of temp n ?i] inv n us
  obtain temp' where r: "fenwick_add n temp ?i = Some temp'" and l: "length temp' = n + 1"
    and v: "\<forall>k\<le>n. temp' ! k = temp ! k + (if k - lb k < s + 1 \<and> s + 1 \<le> k then 1 else 0)"
    by (auto simp: fen_inv_def)
  have "fen_inv n (insert s U) temp'"
    unfolding fen_inv_def
  proof (intro conjI allI impI)
    show "length temp' = n + 1" by (rule l)
  next
    fix k assume k: "1 \<le> k \<and> k \<le> n"
    have old: "unat (temp ! k) = cnt (\<lambda>v. v \<in> U) (k - lb k) k"
      using inv k by (simp add: fen_inv_def)
    have new: "cnt (\<lambda>v. v \<in> insert s U) (k - lb k) k
        = cnt (\<lambda>v. v \<in> U) (k - lb k) k + (if k - lb k \<le> s \<and> s < k then 1 else 0)"
      by (rule cnt_insert_in [OF s(1)])
    have bound: "cnt (\<lambda>v. v \<in> insert s U) (k - lb k) k \<le> k"
      using cnt_le [of "\<lambda>v. v \<in> insert s U" "k - lb k" k] by simp
    have k32: "k < 2 ^ 32" using k n by simp
    show "unat (temp' ! k) = cnt (\<lambda>v. v \<in> insert s U) (k - lb k) k"
    proof (cases "k - lb k \<le> s \<and> s < k")
      case True
      then have "temp' ! k = temp ! k + 1" using v k by auto
      moreover have "unat (temp ! k) + 1 < 2 ^ 32" using old new bound k32 True by simp
      then have "unat (temp ! k + 1) = unat (temp ! k) + 1"
        by (rule unat_plus1)
      ultimately show ?thesis using old new True by simp
    next
      case False
      then have "temp' ! k = temp ! k" using v k by auto
      then show ?thesis using old new False by simp
    qed
  qed
  with r show ?thesis by blast
qed

lemma length_rank_code [simp]: "length (rank_code U ps) = length ps"
  by (induction ps arbitrary: U) simp_all

lemma rank_code_nth:
  "i < length ps \<Longrightarrow> rank_code U ps ! i = cnt (\<lambda>v. v \<notin> U \<union> set (take i ps)) 0 (ps ! i)"
proof (induction ps arbitrary: i U)
  case Nil then show ?case by simp
next
  case (Cons s rest)
  show ?case
  proof (cases i)
    case 0 then show ?thesis by simp
  next
    case (Suc j)
    then have "j < length rest" using Cons.prems by simp
    from Cons.IH [OF this, of "insert s U"] show ?thesis using Suc by simp
  qed
qed

lemma fen_inv_init: "fen_inv n {} (replicate (n + 1) 0)"
proof -
  have "\<And>k. k \<le> n \<Longrightarrow> replicate (n + 1) (0 :: u32) ! k = 0"
    by (rule nth_replicate) simp
  then show ?thesis by (simp add: fen_inv_def cnt_def del: replicate.simps)
qed

lemma ComputeLehmerCode_loop_correct:
  assumes "fen_inv n U temp" "distinct ps" "\<forall>s\<in>set ps. s < n \<and> s \<notin> U" "n < 2 ^ 31"
  shows "ComputeLehmerCode_loop n (map word_of_nat ps) temp
           = Some (map word_of_nat (rank_code U ps))"
  using assms
proof (induction ps arbitrary: U temp)
  case Nil then show ?case by simp
next
  case (Cons s rest)
  let ?s = "word_of_nat s :: u32"
  have s: "s < n" "s \<notin> U" using Cons.prems(3) by simp_all
  have s32: "s < 2 ^ 32" using s Cons.prems(4) by simp
  have us: "unat ?s = s" using s32 by (rule unat_of_nat32)
  have us1: "unat (?s + 1) = s + 1"
  proof -
    have "unat ?s + 1 < 2 ^ 32" unfolding us using s Cons.prems(4) by simp
    from unat_plus1 [OF this] show ?thesis unfolding us .
  qed
  have "cnt (\<lambda>v. v \<in> U) 0 (s + 1) = cnt (\<lambda>v. v \<in> U) 0 s + cnt (\<lambda>v. v \<in> U) s (Suc s)"
    using cnt_split [of 0 s "s + 1" "\<lambda>v. v \<in> U"] by simp
  then have c1: "cnt (\<lambda>v. v \<in> U) 0 (s + 1) = cnt (\<lambda>v. v \<in> U) 0 s"
    using s by (simp add: cnt_single)
  have sum: "fenwick_sum temp (?s + 1) 0 = Some (word_of_nat (cnt (\<lambda>v. v \<in> U) 0 s))"
    using fenwick_sum_correct [OF Cons.prems(1), of "?s + 1" 0] s us1 c1 by simp
  obtain temp' where add: "fenwick_add n temp (?s + 1) = Some temp'"
    and inv': "fen_inv n (insert s U) temp'"
    using fen_inv_add [OF Cons.prems(1) s(2) s(1) Cons.prems(4)] by blast
  have rest: "ComputeLehmerCode_loop n (map word_of_nat rest) temp'
           = Some (map word_of_nat (rank_code (insert s U) rest))"
    using Cons.prems by (intro Cons.IH [OF inv']) auto
  have le: "cnt (\<lambda>v. v \<in> U) 0 s \<le> s" using cnt_le [of "\<lambda>v. v \<in> U" 0 s] by simp
  have "cnt (\<lambda>v. v \<notin> U) 0 s = s - cnt (\<lambda>v. v \<in> U) 0 s"
    using cnt_compl [of "\<lambda>v. v \<in> U" 0 s] by simp
  then have code: "?s - word_of_nat (cnt (\<lambda>v. v \<in> U) 0 s) = (word_of_nat (cnt (\<lambda>v. v \<notin> U) 0 s) :: u32)"
    using le by (simp add: of_nat_diff)
  show ?case by (simp add: sum add rest code)
qed

lemma map_of_nat_unat: "map word_of_nat (map unat (p :: u32 list)) = p"
  by (induction p) simp_all

lemma ComputeLehmerCode_rank_code:
  assumes "valid_permutation p" "length p < 2 ^ 31"
  shows "ComputeLehmerCode p = Some (map word_of_nat (rank_code {} (map unat p)))"
proof -
  let ?ps = "map unat p"
  have d: "distinct ?ps" using assms(1)
    by (simp add: valid_permutation_def distinct_map inj_on_def word_unat_eq_iff)
  have b: "\<forall>s\<in>set ?ps. s < length p \<and> s \<notin> {}" using assms(1)
    by (auto simp: valid_permutation_def)
  from ComputeLehmerCode_loop_correct [OF fen_inv_init d b assms(2)]
  show ?thesis by (simp add: ComputeLehmerCode_def map_of_nat_unat del: map_map)
qed

subsection \<open>The decoder\<close>

lemma cnt_all: "cnt (\<lambda>v. True) a b = b - a"
  using cnt_compl [of "\<lambda>v. False" a b] by (simp add: cnt_def)

lemma dec_inv_init:
  assumes "N < 2 ^ 32"
  shows "dec_inv N {} (map (\<lambda>i. ValueOfLowest1Bit (word_of_nat (i + 1) :: u32)) [0..<N])"
  unfolding dec_inv_def
proof (intro conjI allI impI)
  show "length (map (\<lambda>i. ValueOfLowest1Bit (word_of_nat (i + 1) :: u32)) [0..<N]) = N" by simp
next
  fix k assume k: "1 \<le> k \<and> k \<le> N"
  then have k32: "k < 2 ^ 32" using assms by simp
  from k have k1: "1 \<le> k" and kN: "k \<le> N" by simp_all
  have km: "k - 1 < length [0..<N]" using k1 kN by simp
  have e1: "[0..<N] ! (k - 1) = k - 1" using k1 kN by simp
  have e2: "k - 1 + 1 = k" using k1 by simp
  have "map (\<lambda>i. ValueOfLowest1Bit (word_of_nat (i + 1) :: u32)) [0..<N] ! (k - 1)
        = ValueOfLowest1Bit (word_of_nat k)"
    unfolding nth_map [OF km] e1 e2 by (rule refl)
  moreover have "unat (ValueOfLowest1Bit (word_of_nat k :: u32)) = lb k"
    by (simp only: unat_ValueOfLowest1Bit unat_of_nat32 [OF k32])
  moreover have "cnt (\<lambda>v. v \<notin> {}) (k - lb k) k = lb k"
    using lb_le [of k] by (simp add: cnt_all)
  ultimately show "unat (map (\<lambda>i. ValueOfLowest1Bit (word_of_nat (i + 1) :: u32)) [0..<N] ! (k - 1))
        = cnt (\<lambda>v. v \<notin> {}) (k - lb k) k"
    by simp
qed

lemma cnt_pos: "a \<le> s \<Longrightarrow> s < b \<Longrightarrow> P s \<Longrightarrow> 0 < cnt P a b"
proof -
  assume a: "a \<le> s" "s < b" "P s"
  have "cnt P a b = cnt P a s + cnt P s (Suc s) + cnt P (Suc s) b"
    using a cnt_split [of a s b P] cnt_split [of s "Suc s" b P] by simp
  then show ?thesis using a by (simp add: cnt_single)
qed

lemma cnt_Suc: "cnt P 0 (Suc s) = cnt P 0 s + (if P s then 1 else 0)"
  using cnt_split [of 0 s "Suc s" P] by (simp add: cnt_single)

lemma cnt_inj:
  assumes "P v" "P s" "cnt P 0 v = cnt P 0 s"
  shows "v = s"
proof -
  have less: "\<And>x y. P x \<Longrightarrow> x < y \<Longrightarrow> cnt P 0 x < cnt P 0 y"
  proof -
    fix x y :: nat assume "P x" "x < y"
    then have "cnt P 0 (Suc x) = cnt P 0 x + 1" by (simp add: cnt_Suc)
    moreover have "cnt P 0 (Suc x) \<le> cnt P 0 y" using \<open>x < y\<close> by (intro cnt_mono) simp
    ultimately show "cnt P 0 x < cnt P 0 y" by simp
  qed
  show ?thesis
  proof (rule ccontr)
    assume "v \<noteq> s"
    then consider "v < s" | "s < v" by linarith
    then show False using less [OF assms(1), of s] less [OF assms(2), of v] assms(3) by cases auto
  qed
qed

lemma unat_add_lowbit_gen:
  fixes i :: "'a::len word"
  assumes "2 * unat i < 2 ^ LENGTH('a)"
  shows "unat (i + ValueOfLowest1Bit i) = unat i + lb (unat i)"
proof -
  have "lb (unat i) \<le> unat i" by (rule lb_le)
  then have "unat i + unat (ValueOfLowest1Bit i) < 2 ^ LENGTH('a)"
    using assms by (simp add: unat_ValueOfLowest1Bit)
  then have "unat (i + ValueOfLowest1Bit i) = unat i + unat (ValueOfLowest1Bit i)"
    by (simp only: unat_add_lem)
  then show ?thesis by (simp add: unat_ValueOfLowest1Bit)
qed

lemma mark_used_correct:
  assumes "length temp = N" "1 \<le> unat i" "N < 2 ^ 32"
  shows "\<exists>temp'. mark_used N temp i = Some temp' \<and> length temp' = N
           \<and> (\<forall>k. 1 \<le> k \<and> k \<le> N \<longrightarrow>
                 temp' ! (k - 1) = temp ! (k - 1) - (if k - lb k < unat i \<and> unat i \<le> k then 1 else 0))"
  using assms
proof (induction "N + 1 - unat i" arbitrary: temp i rule: less_induct)
  case less
  show ?case
  proof (cases "unat i \<le> N")
    case False
    then have "mark_used N temp i = Some temp" by (subst mark_used.simps) simp
    then show ?thesis using False less.prems by auto
  next
    case True
    let ?t1 = "temp[unat i - 1 := temp ! (unat i - 1) - 1]"
    let ?i' = "i + ValueOfLowest1Bit i"
    have "2 * unat i < 2 ^ LENGTH(64)" using True less.prems(3) by simp
    then have ui: "unat ?i' = unat i + lb (unat i)" by (rule unat_add_lowbit_gen)
    have lp: "0 < lb (unat i)" using less.prems(2) by (simp add: lb_pos)
    have "N + 1 - unat ?i' < N + 1 - unat i" using ui lp True by simp
    moreover have "length ?t1 = N" using less.prems by simp
    moreover have "1 \<le> unat ?i'" using ui less.prems by simp
    ultimately have "\<exists>temp'. mark_used N ?t1 ?i' = Some temp' \<and> length temp' = N
           \<and> (\<forall>k. 1 \<le> k \<and> k \<le> N \<longrightarrow>
                 temp' ! (k - 1) = ?t1 ! (k - 1) - (if k - lb k < unat ?i' \<and> unat ?i' \<le> k then 1 else 0))"
      using less.prems(3) by (intro less.hyps)
    then obtain temp' where r: "mark_used N ?t1 ?i' = Some temp'"
      and l: "length temp' = N"
      and v: "\<And>k. 1 \<le> k \<and> k \<le> N \<Longrightarrow>
                 temp' ! (k - 1) = ?t1 ! (k - 1) - (if k - lb k < unat ?i' \<and> unat ?i' \<le> k then 1 else 0)"
      by blast
    have "mark_used N temp i = Some temp'"
      using True less.prems(1,2) r by (subst mark_used.simps) simp
    moreover have "\<forall>k. 1 \<le> k \<and> k \<le> N \<longrightarrow>
        temp' ! (k - 1) = temp ! (k - 1) - (if k - lb k < unat i \<and> unat i \<le> k then 1 else 0)"
    proof (intro allI impI)
      fix k assume k: "1 \<le> k \<and> k \<le> N"
      let ?In = "k - lb k < unat i \<and> unat i \<le> k"
      let ?In' = "k - lb k < unat i + lb (unat i) \<and> unat i + lb (unat i) \<le> k"
      have vk: "temp' ! (k - 1) = ?t1 ! (k - 1) - (if ?In' then 1 else 0)"
        using v [OF k] unfolding ui .
      have step: "?In \<longleftrightarrow> (k = unat i \<or> ?In')"
        by (rule in_range_step [OF less.prems(2)])
      show "temp' ! (k - 1) = temp ! (k - 1) - (if ?In then 1 else 0)"
      proof (cases "k = unat i")
        case eq: True
        have "\<not> ?In'" using eq lp by simp
        moreover have "?In" using step eq by blast
        moreover have "unat i - 1 < length temp" using True less.prems(1,2) by arith
        then have "?t1 ! (unat i - 1) = temp ! (unat i - 1) - 1" by (rule nth_list_update_eq)
        then have "?t1 ! (k - 1) = temp ! (k - 1) - 1" unfolding eq .
        ultimately show ?thesis using vk by simp
      next
        case ne: False
        have "k - 1 \<noteq> unat i - 1" using ne k less.prems(2) by arith
        then have "?t1 ! (k - 1) = temp ! (k - 1)" by simp
        moreover have "?In \<longleftrightarrow> ?In'" using step ne by blast
        ultimately show ?thesis using vk by simp
      qed
    qed
    ultimately show ?thesis using l by blast
  qed
qed

lemma unat_of_nat64: "s < 2 ^ 64 \<Longrightarrow> unat (word_of_nat s :: u64) = s"
  by (simp add: unsigned_of_nat take_bit_nat_eq_self)

lemma unat_minus1:
  fixes x :: u32
  assumes "0 < unat x"
  shows "unat (x - 1) = unat x - 1"
proof -
  have "x \<noteq> 0" using assms by (auto simp: unat_gt_0)
  then show ?thesis by (rule unat_minus_one)
qed

lemma dec_inv_mark:
  assumes inv: "dec_inv N U temp" and s: "s \<notin> U" "s < N" and N: "N < 2 ^ 32"
  shows "\<exists>temp'. mark_used N temp (word_of_nat s + 1) = Some temp' \<and> dec_inv N (insert s U) temp'"
proof -
  let ?i = "word_of_nat s + 1 :: u64"
  have us: "unat ?i = s + 1"
  proof -
    have "s < 2 ^ 64" using s N by simp
    then have u: "unat (word_of_nat s :: u64) = s" by (rule unat_of_nat64)
    have "unat (word_of_nat s :: u64) + unat (1 :: u64) < 2 ^ LENGTH(64)"
      unfolding u using s N by simp
    then have "unat ?i = unat (word_of_nat s :: u64) + unat (1 :: u64)"
      by (simp only: unat_add_lem)
    then show ?thesis unfolding u by simp
  qed
  have len: "length temp = N" using inv by (simp add: dec_inv_def)
  have "1 \<le> unat ?i" unfolding us by simp
  from mark_used_correct [OF len this N]
  obtain temp' where r: "mark_used N temp ?i = Some temp'" and l: "length temp' = N"
    and v: "\<And>k. 1 \<le> k \<and> k \<le> N \<Longrightarrow>
              temp' ! (k - 1) = temp ! (k - 1) - (if k - lb k < s + 1 \<and> s + 1 \<le> k then 1 else 0)"
    unfolding us by blast
  have "dec_inv N (insert s U) temp'"
    unfolding dec_inv_def
  proof (intro conjI allI impI)
    show "length temp' = N" by (rule l)
  next
    fix k assume k: "1 \<le> k \<and> k \<le> N"
    have old: "unat (temp ! (k - 1)) = cnt (\<lambda>v. v \<notin> U) (k - lb k) k"
      using inv k by (simp add: dec_inv_def)
    have new: "cnt (\<lambda>v. v \<notin> insert s U) (k - lb k) k
        = cnt (\<lambda>v. v \<notin> U) (k - lb k) k - (if k - lb k \<le> s \<and> s < k then 1 else 0)"
      by (rule cnt_insert_out [OF s(1)])
    show "unat (temp' ! (k - 1)) = cnt (\<lambda>v. v \<notin> insert s U) (k - lb k) k"
    proof (cases "k - lb k \<le> s \<and> s < k")
      case True
      then have "k - lb k < s + 1 \<and> s + 1 \<le> k" by arith
      then have "temp' ! (k - 1) = temp ! (k - 1) - 1" using v [OF k] by simp
      moreover have "0 < cnt (\<lambda>v. v \<notin> U) (k - lb k) k"
        using True s(1) by (intro cnt_pos [of _ s]) simp_all
      then have "unat (temp ! (k - 1) - 1) = unat (temp ! (k - 1)) - 1"
        unfolding old [symmetric] by (rule unat_minus1)
      ultimately show ?thesis using old new True by simp
    next
      case False
      then have "\<not> (k - lb k < s + 1 \<and> s + 1 \<le> k)" by arith
      then have "temp' ! (k - 1) = temp ! (k - 1)" using v [OF k] by simp
      then show ?thesis using old new False by simp
    qed
  qed
  with r show ?thesis by blast
qed

lemma select_loop_correct:
  assumes inv: "dec_inv N U temp" and N: "N = 2 ^ L"
    and j: "j \<le> L + 1" and w: "w = 2 ^ (L + 1 - j)" and b: "bit' = w div 2"
    and dv: "w dvd next"
    and lo: "cnt (\<lambda>v. v \<notin> U) 0 next < r0"
    and hi: "r0 \<le> cnt (\<lambda>v. v \<notin> U) 0 (min (next + w) N)"
    and rk: "unat rank = r0 - cnt (\<lambda>v. v \<notin> U) 0 next"
  shows "\<exists>v. select_loop temp L j bit' next rank = Some (v, 1) \<and> v < N \<and> v \<notin> U
             \<and> cnt (\<lambda>v. v \<notin> U) 0 v = r0 - 1"
  using j w b dv lo hi rk
proof (induction "L + 1 - j" arbitrary: j w bit' "next" rank rule: less_induct)
  case less
  let ?F = "\<lambda>v. v \<notin> U"
  have nN: "next < N"
  proof (rule ccontr)
    assume "\<not> next < N"
    then have "min (next + w) N \<le> next" by simp
    then have "cnt ?F 0 (min (next + w) N) \<le> cnt ?F 0 next" by (rule cnt_mono)
    then show False using less.prems(5,6) by simp
  qed
  show ?case
  proof (cases "j \<le> L")
    case False
    then have jL: "j = L + 1" using less.prems(1) by simp
    then have w1: "w = 1" using less.prems(2) by simp
    have "min (next + w) N = Suc next" using nN w1 by simp
    then have "r0 \<le> cnt ?F 0 next + (if ?F next then 1 else 0)"
      using less.prems(6) by (simp add: cnt_Suc)
    then have F: "?F next" and r0: "r0 = cnt ?F 0 next + 1"
      using less.prems(5) by (auto split: if_splits)
    have "unat rank = 1" using less.prems(7) r0 by simp
    then have "rank = 1" by (simp add: word_unat_eq_iff)
    moreover have "select_loop temp L j bit' next rank = Some (next, rank)"
      using False by (subst select_loop.simps) simp
    ultimately show ?thesis using nN F r0 by simp
  next
    case True
    define e where "e = L - j"
    have w2: "w = 2 ^ Suc e" using True less.prems(2) by (simp add: e_def Suc_diff_le)
    have b2: "bit' = 2 ^ e" using less.prems(3) w2 by simp
    have bpos: "0 < bit'" using b2 by simp
    let ?cand = "next + bit'"
    have bdN: "bit' dvd N" unfolding b2 N using True by (simp add: e_def le_imp_power_dvd)
    have "(2::nat) ^ e dvd 2 ^ Suc e" by simp
    then have bdn: "bit' dvd next"
      using less.prems(4) unfolding w2 b2 by (rule dvd_trans)
    have "bit' dvd (N - next)" using bdN bdn by (rule dvd_diff_nat)
    then have "bit' \<le> N - next" using nN by (intro dvd_imp_le) simp_all
    then have cN: "?cand \<le> N" using nN by simp
    have c1: "1 \<le> ?cand" using bpos by simp
    have lbc: "lb ?cand = bit'"
      unfolding b2 using less.prems(4) unfolding w2 by (rule lb_add_pow2)
    have tc: "unat (temp ! (?cand - 1)) = cnt ?F next ?cand"
      using inv c1 cN lbc by (simp add: dec_inv_def)
    have len: "?cand - 1 < length temp" using inv c1 cN by (simp add: dec_inv_def)
    have split: "cnt ?F 0 ?cand = cnt ?F 0 next + cnt ?F next ?cand"
      by (rule cnt_split) simp_all
    have w': "bit' = 2 ^ (L + 1 - (j + 1))" using b2 by (simp add: e_def)
    have meas: "L + 1 - (j + 1) < L + 1 - j" using True by simp
    have j': "j + 1 \<le> L + 1" using True by simp
    have unf: "select_loop temp L j bit' next rank =
        (if temp ! (?cand - 1) < rank
         then select_loop temp L (j + 1) (bit' div 2) ?cand (rank - temp ! (?cand - 1))
         else select_loop temp L (j + 1) (bit' div 2) next rank)"
      using True c1 len by (subst select_loop.simps) (simp add: Let_def)
    show ?thesis
    proof (cases "temp ! (?cand - 1) < rank")
      case lt: True
      then have ltn: "cnt ?F next ?cand < r0 - cnt ?F 0 next"
        using tc less.prems(7) by (simp add: word_less_nat_alt)
      have rk': "unat (rank - temp ! (?cand - 1)) = r0 - cnt ?F 0 ?cand"
      proof -
        have "temp ! (?cand - 1) \<le> rank" using lt by simp
        then have "unat (rank - temp ! (?cand - 1)) = unat rank - unat (temp ! (?cand - 1))"
          by (rule unat_sub)
        then show ?thesis using tc less.prems(7) split by simp
      qed
      have lo': "cnt ?F 0 ?cand < r0" using ltn split by simp
      have "?cand + bit' = next + w" unfolding w2 b2 by simp
      then have hi': "r0 \<le> cnt ?F 0 (min (?cand + bit') N)"
        using less.prems(6) by (simp only:)
      have dv': "bit' dvd ?cand" using bdn by simp
      from less.hyps [OF meas j' w' refl dv' lo' hi' rk']
      show ?thesis unfolding unf using lt by simp
    next
      case ge: False
      then have gen: "r0 - cnt ?F 0 next \<le> cnt ?F next ?cand"
        using tc less.prems(7) by (simp add: word_less_nat_alt)
      have "min (next + bit') N = ?cand" using cN by simp
      then have hi': "r0 \<le> cnt ?F 0 (min (next + bit') N)"
        using gen split by simp
      from less.hyps [OF meas j' w' refl bdn less.prems(5) hi' less.prems(7)]
      show ?thesis unfolding unf using ge by simp
    qed
  qed
qed

lemma select_first:
  assumes inv: "dec_inv N U temp" and N: "N = 2 ^ L"
    and c: "c < cnt (\<lambda>v. v \<notin> U) 0 N" and rk: "unat rank = c + 1"
  shows "\<exists>v. select_loop temp L 0 N 0 rank = Some (v, 1) \<and> v < N \<and> v \<notin> U
             \<and> cnt (\<lambda>v. v \<notin> U) 0 v = c"
proof -
  have w: "2 * N = 2 ^ (L + 1 - 0)" using N by simp
  have b: "N = (2 * N) div 2" by simp
  have lo: "cnt (\<lambda>v. v \<notin> U) 0 0 < c + 1" by simp
  have "min (0 + 2 * N) N = N" by simp
  then have hi: "c + 1 \<le> cnt (\<lambda>v. v \<notin> U) 0 (min (0 + 2 * N) N)" using c by simp
  have rk': "unat rank = c + 1 - cnt (\<lambda>v. v \<notin> U) 0 0" using rk by simp
  from select_loop_correct [OF inv N _ w b _ lo hi rk']
  show ?thesis by simp
qed

lemma DecodeLehmerCode_loop_rank_code:
  assumes "dec_inv N U temp" "N = 2 ^ L" "N < 2 ^ 32" "distinct ps" "\<forall>s\<in>set ps. s < N \<and> s \<notin> U"
  shows "DecodeLehmerCode_loop L N (map word_of_nat (rank_code U ps)) temp
           = Some (map word_of_nat ps)"
  using assms
proof (induction ps arbitrary: U temp)
  case Nil then show ?case by simp
next
  case (Cons s rest)
  let ?F = "\<lambda>v. v \<notin> U"
  let ?c = "cnt ?F 0 s"
  have s: "s < N" "s \<notin> U" using Cons.prems(5) by simp_all
  have cs: "?c \<le> s" using cnt_le [of ?F 0 s] by simp
  have "cnt ?F 0 (Suc s) \<le> cnt ?F 0 N" using s by (intro cnt_mono) simp
  then have c: "?c < cnt ?F 0 N" using s by (simp add: cnt_Suc)
  have c32: "?c < 2 ^ 32" using cs s Cons.prems(3) by simp
  have rk: "unat (word_of_nat ?c + 1 :: u32) = ?c + 1"
  proof -
    have u: "unat (word_of_nat ?c :: u32) = ?c" using c32 by (rule unat_of_nat32)
    have "unat (word_of_nat ?c :: u32) + 1 < 2 ^ 32" unfolding u using cs s Cons.prems(3) by simp
    from unat_plus1 [OF this] show ?thesis unfolding u .
  qed
  from select_first [OF Cons.prems(1,2) c rk]
  obtain v where sel: "select_loop temp L 0 N 0 (word_of_nat ?c + 1) = Some (v, 1)"
    and v: "v < N" "v \<notin> U" "cnt ?F 0 v = ?c" by blast
  have "v = s" using v(2) s(2) v(3) by (rule cnt_inj)
  with sel have sel': "select_loop temp L 0 N 0 (word_of_nat ?c + 1) = Some (s, 1)" by simp
  obtain temp' where mk: "mark_used N temp (word_of_nat s + 1) = Some temp'"
    and inv': "dec_inv N (insert s U) temp'"
    using dec_inv_mark [OF Cons.prems(1) s(2) s(1) Cons.prems(3)] by blast
  have rest: "DecodeLehmerCode_loop L N (map word_of_nat (rank_code (insert s U) rest)) temp'
           = Some (map word_of_nat rest)"
    using Cons.prems by (intro Cons.IH [OF inv']) auto
  show ?case by (simp add: sel' mk rest)
qed

lemma DecodeLehmerCode_loop_valid:
  assumes "dec_inv N U temp" "N = 2 ^ L" "N < 2 ^ 32" "n \<le> N"
    and "\<forall>i<length cs. unat (cs ! i) + i < cnt (\<lambda>v. v \<notin> U) 0 n"
  shows "\<exists>qs. DecodeLehmerCode_loop L N cs temp = Some (map word_of_nat qs)
            \<and> length qs = length cs \<and> distinct qs \<and> (\<forall>s\<in>set qs. s < n \<and> s \<notin> U)
            \<and> rank_code U qs = map unat cs"
  using assms
proof (induction cs arbitrary: U temp)
  case Nil
  then show ?case by simp
next
  case (Cons c rest)
  let ?F = "\<lambda>v. v \<notin> U"
  have c0: "unat c < cnt ?F 0 n" using Cons.prems(5) by auto
  have "cnt ?F 0 n \<le> cnt ?F 0 N" using Cons.prems(4) by (rule cnt_mono)
  then have cN: "unat c < cnt ?F 0 N" using c0 by simp
  have nle: "cnt ?F 0 n \<le> n" using cnt_le [of ?F 0 n] by simp
  have rk: "unat (c + 1) = unat c + 1"
    using c0 nle Cons.prems(3,4) by (intro unat_plus1) simp
  from select_first [OF Cons.prems(1,2) cN rk]
  obtain v where sel: "select_loop temp L 0 N 0 (c + 1) = Some (v, 1)"
    and v: "v < N" "v \<notin> U" "cnt ?F 0 v = unat c" by blast
  have vn: "v < n"
  proof (rule ccontr)
    assume "\<not> v < n"
    then have "cnt ?F 0 n \<le> cnt ?F 0 v" by (intro cnt_mono) simp
    then show False using v(3) c0 by simp
  qed
  obtain temp' where mk: "mark_used N temp (word_of_nat v + 1) = Some temp'"
    and inv': "dec_inv N (insert v U) temp'"
    using dec_inv_mark [OF Cons.prems(1) v(2) v(1) Cons.prems(3)] by blast
  have cnt': "cnt (\<lambda>x. x \<notin> insert v U) 0 n = cnt ?F 0 n - 1"
    using cnt_insert_out [OF v(2), of 0 n] vn by simp
  have valid': "\<forall>i<length rest. unat (rest ! i) + i < cnt (\<lambda>x. x \<notin> insert v U) 0 n"
  proof (intro allI impI)
    fix i assume "i < length rest"
    then have "unat ((c # rest) ! Suc i) + Suc i < cnt ?F 0 n"
      using Cons.prems(5) by (metis Suc_less_eq length_Cons)
    then show "unat (rest ! i) + i < cnt (\<lambda>x. x \<notin> insert v U) 0 n"
      unfolding cnt' by simp
  qed
  from Cons.IH [OF inv' Cons.prems(2,3,4) valid']
  obtain qs where r: "DecodeLehmerCode_loop L N rest temp' = Some (map word_of_nat qs)"
    and q: "length qs = length rest" "distinct qs" "\<forall>s\<in>set qs. s < n \<and> s \<notin> insert v U"
      "rank_code (insert v U) qs = map unat rest"
    by blast
  have "DecodeLehmerCode_loop L N (c # rest) temp = Some (map word_of_nat (v # qs))"
    by (simp add: sel mk r)
  moreover have "distinct (v # qs)" using q by auto
  moreover have "\<forall>s\<in>set (v # qs). s < n \<and> s \<notin> U" using q vn v by auto
  moreover have "rank_code U (v # qs) = map unat (c # rest)" using q v by simp
  ultimately show ?case using q(1) by (intro exI [of _ "v # qs"]) simp
qed

lemma rank_code_valid:
  assumes "distinct ps" "\<forall>s\<in>set ps. s < n \<and> s \<notin> U" "i < length ps"
  shows "rank_code U ps ! i + i < cnt (\<lambda>v. v \<notin> U) 0 n"
  using assms
proof (induction ps arbitrary: U i)
  case Nil then show ?case by simp
next
  case (Cons s rest)
  have s: "s < n" "s \<notin> U" using Cons.prems(2) by simp_all
  have "cnt (\<lambda>v. v \<notin> U) 0 (Suc s) \<le> cnt (\<lambda>v. v \<notin> U) 0 n" using s by (intro cnt_mono) simp
  then have c: "cnt (\<lambda>v. v \<notin> U) 0 s < cnt (\<lambda>v. v \<notin> U) 0 n" using s by (simp add: cnt_Suc)
  show ?case
  proof (cases i)
    case 0 then show ?thesis using c by simp
  next
    case (Suc j)
    have cnt': "cnt (\<lambda>x. x \<notin> insert s U) 0 n = cnt (\<lambda>v. v \<notin> U) 0 n - 1"
      using cnt_insert_out [OF s(2), of 0 n] s(1) by simp
    have "rank_code (insert s U) rest ! j + j < cnt (\<lambda>x. x \<notin> insert s U) 0 n"
      using Cons.prems Suc by (intro Cons.IH) auto
    then show ?thesis using Suc unfolding cnt' by simp
  qed
qed

lemma CeilLog2Nonzero_le: "x \<le> 2 ^ k \<Longrightarrow> CeilLog2Nonzero x \<le> k"
proof (induction x arbitrary: k rule: CeilLog2Nonzero.induct)
  case (1 x)
  show ?case
  proof (cases "x \<le> 1")
    case True then show ?thesis by (subst CeilLog2Nonzero.simps) simp
  next
    case False
    then have "k \<noteq> 0" using "1.prems" by (cases k) auto
    then obtain k' where k: "k = Suc k'" by (cases k) auto
    have "(x + 1) div 2 \<le> 2 ^ k'" using "1.prems" k by simp
    from "1.IH" [OF False this] show ?thesis using False k
      by (subst CeilLog2Nonzero.simps) simp
  qed
qed

lemma CeilLog2Nonzero_ge: "x \<le> 2 ^ CeilLog2Nonzero x"
proof (induction x rule: CeilLog2Nonzero.induct)
  case (1 x)
  show ?case
  proof (cases "x \<le> 1")
    case True then show ?thesis by (subst CeilLog2Nonzero.simps) simp
  next
    case False
    from "1.IH" [OF False] have "(x + 1) div 2 \<le> 2 ^ CeilLog2Nonzero ((x + 1) div 2)" .
    then have "x \<le> 2 * 2 ^ CeilLog2Nonzero ((x + 1) div 2)" by linarith
    then show ?thesis using False by (subst CeilLog2Nonzero.simps) simp
  qed
qed

subsection \<open>Round trips\<close>

lemma map_unat_of_nat:
  "\<forall>s\<in>set qs. s < 2 ^ 32 \<Longrightarrow> map unat (map word_of_nat qs :: u32 list) = qs"
  by (induction qs) (simp_all add: unat_of_nat32)

lemma distinct_map_of_nat:
  assumes "distinct qs" "\<forall>s\<in>set qs. s < 2 ^ 32"
  shows "distinct (map word_of_nat qs :: u32 list)"
proof -
  have "distinct (map unat (map word_of_nat qs :: u32 list))"
    using assms by (simp only: map_unat_of_nat)
  then show ?thesis unfolding distinct_map [of unat] by (rule conjunct1)
qed

lemma decode_setup:
  assumes "0 < n" "n < 2 ^ 31"
  shows "n \<le> 2 ^ CeilLog2Nonzero n" "(2::nat) ^ CeilLog2Nonzero n < 2 ^ 32"
proof -
  show "n \<le> 2 ^ CeilLog2Nonzero n" by (rule CeilLog2Nonzero_ge)
  have "n \<le> 2 ^ 31" using assms by simp
  then have "CeilLog2Nonzero n \<le> 31" by (rule CeilLog2Nonzero_le)
  then have "(2::nat) ^ CeilLog2Nonzero n \<le> 2 ^ 31" by (rule power_increasing) simp
  then show "(2::nat) ^ CeilLog2Nonzero n < 2 ^ 32" by simp
qed

lemma DecodeLehmerCode_unfold:
  "0 < length code \<Longrightarrow> DecodeLehmerCode code =
     DecodeLehmerCode_loop (CeilLog2Nonzero (length code)) (2 ^ CeilLog2Nonzero (length code)) code
       (map (\<lambda>i. ValueOfLowest1Bit (word_of_nat (i + 1))) [0..<2 ^ CeilLog2Nonzero (length code)])"
  by (simp add: DecodeLehmerCode_def Let_def)

lemma cnt_none_used: "cnt (\<lambda>v. v \<notin> {}) 0 n = n"
  by (simp add: cnt_all)

lemma Compute_then_Decode:
  assumes vp: "valid_permutation p" and n0: "0 < length p" and n31: "length p < 2 ^ 31"
  shows "\<exists>code. ComputeLehmerCode p = Some code \<and> length code = length p \<and> valid_code code
           \<and> DecodeLehmerCode code = Some p"
proof -
  let ?n = "length p"
  let ?ps = "map unat p"
  let ?code = "map word_of_nat (rank_code {} ?ps) :: u32 list"
  let ?L = "CeilLog2Nonzero ?n"
  have d: "distinct ?ps" using vp
    by (simp add: valid_permutation_def distinct_map inj_on_def word_unat_eq_iff)
  have b: "\<forall>s\<in>set ?ps. s < ?n \<and> s \<notin> {}" using vp by (auto simp: valid_permutation_def)
  have comp: "ComputeLehmerCode p = Some ?code" using vp n31 by (rule ComputeLehmerCode_rank_code)
  have len: "length ?code = ?n" by simp
  note su = decode_setup [OF n0 n31]
  have bN: "\<forall>s\<in>set ?ps. s < 2 ^ ?L \<and> s \<notin> {}" using b su(1) by auto
  have "DecodeLehmerCode ?code = DecodeLehmerCode_loop ?L (2 ^ ?L) ?code
       (map (\<lambda>i. ValueOfLowest1Bit (word_of_nat (i + 1))) [0..<2 ^ ?L])"
    using DecodeLehmerCode_unfold [of ?code] n0 by (simp only: len)
  also have "\<dots> = Some (map word_of_nat ?ps)"
    by (rule DecodeLehmerCode_loop_rank_code [OF dec_inv_init [OF su(2)] refl su(2) d bN])
  finally have dec: "DecodeLehmerCode ?code = Some p" by (simp only: map_of_nat_unat)
  have "valid_code ?code"
    unfolding valid_code_def
  proof (intro allI impI)
    fix i assume "i < length ?code"
    then have i: "i < length ?ps" by simp
    have r: "rank_code {} ?ps ! i + i < ?n"
      using rank_code_valid [OF d b i] by (simp add: cnt_all)
    then have "rank_code {} ?ps ! i < 2 ^ 32" using n31 by simp
    then have "unat (word_of_nat (rank_code {} ?ps ! i) :: u32) = rank_code {} ?ps ! i"
      by (rule unat_of_nat32)
    moreover have "?code ! i = word_of_nat (rank_code {} ?ps ! i)" using i by simp
    ultimately show "unat (?code ! i) + i < length ?code" using r by simp
  qed
  with comp len dec show ?thesis by blast
qed

lemma Decode_then_Compute:
  assumes vc: "valid_code c" and n0: "0 < length c" and n31: "length c < 2 ^ 31"
  shows "\<exists>p. DecodeLehmerCode c = Some p \<and> length p = length c \<and> valid_permutation p
           \<and> ComputeLehmerCode p = Some c"
proof -
  let ?n = "length c"
  let ?L = "CeilLog2Nonzero ?n"
  note su = decode_setup [OF n0 n31]
  have v: "\<forall>i<length c. unat (c ! i) + i < cnt (\<lambda>v. v \<notin> {}) 0 ?n"
    using vc by (simp add: valid_code_def cnt_all)
  from DecodeLehmerCode_loop_valid [OF dec_inv_init [OF su(2)] refl su(2) su(1) v]
  obtain qs where r: "DecodeLehmerCode_loop ?L (2 ^ ?L) c
        (map (\<lambda>i. ValueOfLowest1Bit (word_of_nat (i + 1))) [0..<2 ^ ?L]) = Some (map word_of_nat qs)"
    and q: "length qs = ?n" "distinct qs" "\<forall>s\<in>set qs. s < ?n \<and> s \<notin> {}"
      "rank_code {} qs = map unat c"
    by blast
  let ?p = "map word_of_nat qs :: u32 list"
  have q32: "\<forall>s\<in>set qs. s < 2 ^ 32" using q(3) n31 by auto
  have un: "map unat ?p = qs" using q32 by (rule map_unat_of_nat)
  have dec: "DecodeLehmerCode c = Some ?p" using DecodeLehmerCode_unfold [OF n0] r by simp
  have lp: "length ?p = ?n" using q(1) by simp
  have "distinct ?p" using q(2) q32 by (rule distinct_map_of_nat)
  moreover have "\<forall>x\<in>set ?p. unat x < length ?p"
  proof
    fix x assume "x \<in> set ?p"
    then have "unat x \<in> set (map unat ?p)" by (simp only: set_map) (rule imageI)
    then have "unat x \<in> set qs" unfolding un .
    then show "unat x < length ?p" using q(3) lp by simp
  qed
  ultimately have vp: "valid_permutation ?p" by (simp add: valid_permutation_def)
  have "ComputeLehmerCode ?p = Some (map word_of_nat (rank_code {} (map unat ?p)))"
    using vp n31 lp by (intro ComputeLehmerCode_rank_code) simp_all
  then have "ComputeLehmerCode ?p = Some c"
    unfolding un q(4) by (simp only: map_of_nat_unat)
  with dec lp vp show ?thesis by blast
qed

text \<open>
  Claim C5. For lists of a length \<open>n\<close> with \<open>0 < n < 2 ^ 31\<close> (the decoder requires
  \<open>n \<noteq> 0\<close>, and the arithmetic is in 32 bits; in particular every \<open>n \<le> 1024\<close>):
  \<open>ComputeLehmerCode\<close> maps every valid permutation to a valid code that
  \<open>DecodeLehmerCode\<close> maps back to the permutation, and \<open>DecodeLehmerCode\<close> maps every
  valid code to a valid permutation that \<open>ComputeLehmerCode\<close> maps back to the code.
  Both functions return a result on these inputs: no access outside \<open>temp\<close>, no loop
  that does not stop.
\<close>

theorem LehmerCode_roundtrip:
  assumes "0 < length xs" and "length xs < 2 ^ 31"
  shows "(valid_permutation xs \<longrightarrow>
            (\<exists>code. ComputeLehmerCode xs = Some code \<and> length code = length xs
                \<and> valid_code code \<and> DecodeLehmerCode code = Some xs))
       \<and> (valid_code xs \<longrightarrow>
            (\<exists>p. DecodeLehmerCode xs = Some p \<and> length p = length xs
                \<and> valid_permutation p \<and> ComputeLehmerCode p = Some xs))"
  using Compute_then_Decode [OF _ assms] Decode_then_Compute [OF _ assms] by blast

lemma example_eval:
  "ComputeLehmerCode example_permutation = Some example_code"
  "DecodeLehmerCode example_code = Some example_permutation"
  by (simp_all add: lehmer_eval example_permutation_def example_code_def upt_rec)

theorem LehmerCode_roundtrip_witness:
  "valid_permutation example_permutation \<and> valid_code example_code
   \<and> ComputeLehmerCode example_permutation = Some example_code
   \<and> DecodeLehmerCode example_code = Some example_permutation"
proof -
  have l: "0 < length example_permutation" "length example_permutation < 2 ^ 31"
    "0 < length example_code" "length example_code < 2 ^ 31"
    by (simp_all add: example_permutation_def example_code_def)
  have vp: "valid_permutation example_permutation"
    by (simp add: valid_permutation_def example_permutation_def)
  have vc: "valid_code example_code"
    by (simp add: valid_code_def example_code_def All_less_Suc)
  from LehmerCode_roundtrip [OF l(1,2)] LehmerCode_roundtrip [OF l(3,4)] vp vc
  show ?thesis using example_eval by auto
qed

text \<open>
  Claim C6, with the code of the example corrected. For every valid permutation
  \<open>ComputeLehmerCode\<close> returns, at each position \<open>i\<close>, the rank of
  \<open>permutation[i]\<close> among the values not used before position \<open>i\<close>: the number of
  smaller values that do not occur in \<open>permutation[0..i)\<close>. For
  \<open>[3,1,4,0,5,2,7,6]\<close> the code is \<open>[3,1,2,0,1,0,1,0]\<close>, and \<open>DecodeLehmerCode\<close>
  recovers the permutation from it.
\<close>

theorem ComputeLehmerCode_rank:
  "(valid_permutation p \<and> length p < 2 ^ 31 \<longrightarrow>
      (\<exists>code. ComputeLehmerCode p = Some code \<and> length code = length p
          \<and> (\<forall>i<length p. unat (code ! i)
                = card {v. v < unat (p ! i) \<and> v \<notin> unat ` set (take i p)})))
   \<and> ComputeLehmerCode [3, 1, 4, 0, 5, 2, 7, 6] = Some [3, 1, 2, 0, 1, 0, 1, 0]
   \<and> DecodeLehmerCode [3, 1, 2, 0, 1, 0, 1, 0] = Some [3, 1, 4, 0, 5, 2, 7, 6]"
proof (intro conjI impI)
  assume a: "valid_permutation p \<and> length p < 2 ^ 31"
  let ?ps = "map unat p"
  let ?code = "map word_of_nat (rank_code {} ?ps) :: u32 list"
  have comp: "ComputeLehmerCode p = Some ?code" using a by (intro ComputeLehmerCode_rank_code) simp_all
  have "\<forall>i<length p. unat (?code ! i) = card {v. v < unat (p ! i) \<and> v \<notin> unat ` set (take i p)}"
  proof (intro allI impI)
    fix i assume i: "i < length p"
    then have i': "i < length ?ps" by simp
    have "rank_code {} ?ps ! i = cnt (\<lambda>v. v \<notin> {} \<union> set (take i ?ps)) 0 (?ps ! i)"
      by (rule rank_code_nth [OF i'])
    also have "\<dots> = card {v. v < unat (p ! i) \<and> v \<notin> unat ` set (take i p)}"
      using i by (simp add: cnt_def take_map)
    finally have r: "rank_code {} ?ps ! i = card {v. v < unat (p ! i) \<and> v \<notin> unat ` set (take i p)}" .
    have "rank_code {} ?ps ! i \<le> ?ps ! i"
      unfolding rank_code_nth [OF i'] using cnt_le [of _ 0 "?ps ! i"] by simp
    moreover have "unat (p ! i) < 2 ^ LENGTH(32)" by (rule unsigned_less)
    then have "?ps ! i < 2 ^ 32" using i by simp
    ultimately have "rank_code {} ?ps ! i < 2 ^ 32" by simp
    then have "unat (word_of_nat (rank_code {} ?ps ! i) :: u32) = rank_code {} ?ps ! i"
      by (rule unat_of_nat32)
    then show "unat (?code ! i) = card {v. v < unat (p ! i) \<and> v \<notin> unat ` set (take i p)}"
      using i r by simp
  qed
  with comp show "\<exists>code. ComputeLehmerCode p = Some code \<and> length code = length p
          \<and> (\<forall>i<length p. unat (code ! i)
                = card {v. v < unat (p ! i) \<and> v \<notin> unat ` set (take i p)})"
    by (intro exI [of _ ?code]) simp
next
  show "ComputeLehmerCode [3, 1, 4, 0, 5, 2, 7, 6] = Some [3, 1, 2, 0, 1, 0, 1, 0]"
    using example_eval(1) by (simp add: example_permutation_def example_code_def)
  show "DecodeLehmerCode [3, 1, 2, 0, 1, 0, 1, 0] = Some [3, 1, 4, 0, 5, 2, 7, 6]"
    using example_eval(2) by (simp add: example_permutation_def example_code_def)
qed

theorem ComputeLehmerCode_rank_witness:
  "\<exists>code. ComputeLehmerCode example_permutation = Some code
     \<and> length code = length example_permutation
     \<and> (\<forall>i<length example_permutation. unat (code ! i)
           = card {v. v < unat (example_permutation ! i)
                      \<and> v \<notin> unat ` set (take i example_permutation)})"
proof -
  have "valid_permutation example_permutation \<and> length example_permutation < 2 ^ 31"
    by (simp add: valid_permutation_def example_permutation_def)
  with ComputeLehmerCode_rank [of example_permutation] show ?thesis by blast
qed

text \<open>
  Claim C6 as stated fails: the code of \<open>[3,1,4,0,5,2,7,6]\<close> is not
  \<open>[3,1,3,0,2,3,1,0]\<close> (at position 2 the value 4 has the two unused smaller values 0
  and 2).
\<close>

theorem ComputeLehmerCode_example_counterexample:
  "ComputeLehmerCode [3, 1, 4, 0, 5, 2, 7, 6] \<noteq> Some [3, 1, 3, 0, 2, 3, 1, 0]"
  using example_eval(1) by (simp add: example_permutation_def example_code_def)

section \<open>Properties of the resumable ICC reader\<close>

subsection \<open>The expansion check\<close>

lemma bit_length_bounds: "0 < n \<Longrightarrow> 2 ^ (bit_length n - 1) \<le> n \<and> n < 2 ^ bit_length n"
proof (induction n rule: bit_length.induct)
  case (1 n)
  show ?case
  proof (cases "n div 2 = 0")
    case True
    then have "n = 1" using "1.prems" by (simp add: div_eq_0_iff) 
    then show ?thesis by (simp add: bit_length.simps)
  next
    case False
    then have "0 < n div 2" by simp
    from "1.IH" [OF _ this] "1.prems"
    have ih: "2 ^ (bit_length (n div 2) - 1) \<le> n div 2 \<and> n div 2 < 2 ^ bit_length (n div 2)" by simp
    have bl: "bit_length n = Suc (bit_length (n div 2))" using "1.prems" by (subst bit_length.simps) simp
    have pos: "0 < bit_length (n div 2)" using False by (subst bit_length.simps) simp
    then have "(2::nat) ^ (bit_length n - 1) = 2 * 2 ^ (bit_length (n div 2) - 1)"
      unfolding bl by (cases "bit_length (n div 2)") simp_all
    moreover have "2 * (n div 2) \<le> n" by simp
    moreover have "n < 2 * (n div 2) + 2" by linarith
    ultimately show ?thesis using ih unfolding bl by simp linarith
  qed
qed

lemma float_of_size_t_small: "n < 2 ^ 24 \<Longrightarrow> float_of_size_t n = n"
  by (simp add: float_of_size_t_def)

lemma float_of_size_t_large:
  assumes "2 ^ 24 \<le> n"
  shows "2 ^ 24 \<le> float_of_size_t n"
proof -
  have pos: "0 < n" using assms by simp
  note b = bit_length_bounds [OF pos]
  have "(2::nat) ^ 24 < 2 ^ bit_length n" using assms b by linarith
  then have bl: "24 < bit_length n" by (simp only: power_strict_increasing_iff) 
  define e where "e = bit_length n - 24"
  have e1: "1 \<le> e" using bl by (simp add: e_def)
  have "bit_length n - 1 = 23 + e" using bl by (simp add: e_def)
  then have "(2::nat) ^ 23 * 2 ^ e \<le> n" using b by (simp add: power_add)
  then have q: "2 ^ 23 \<le> n div 2 ^ e" by (simp add: less_eq_div_iff_mult_less_eq)
  have "(2::nat) ^ 1 \<le> 2 ^ e" using e1 by (intro power_increasing) simp_all
  then have e2: "(2::nat) \<le> 2 ^ e" by simp
  have "(2::nat) ^ 23 * 2 \<le> (n div 2 ^ e) * 2 ^ e" using q e2 by (rule mult_le_mono)
  then have lo: "(2::nat) ^ 24 \<le> (n div 2 ^ e) * 2 ^ e" by simp
  moreover have "(n div 2 ^ e) * 2 ^ e \<le> (n div 2 ^ e + 1) * 2 ^ e" by simp
  ultimately show ?thesis using assms
    unfolding float_of_size_t_def Let_def e_def [symmetric] by (simp del: power_numeral)
qed

lemma float_of_size_t_multiple:
  assumes "n mod 65536 = 0" "n \<le> 2 ^ 28"
  shows "float_of_size_t n = n"
proof (cases "n < 2 ^ 24")
  case True then show ?thesis by (rule float_of_size_t_small)
next
  case False
  then have pos: "0 < n" by simp
  note b = bit_length_bounds [OF pos]
  have "(2::nat) ^ 24 < 2 ^ bit_length n" using False b by linarith
  then have bl: "24 < bit_length n" by (simp only: power_strict_increasing_iff)
  have "(2::nat) ^ (bit_length n - 1) < 2 ^ 29" using b assms(2) by simp
  then have "bit_length n - 1 < 29" by (simp only: power_strict_increasing_iff)
  then have bu: "bit_length n \<le> 29" by simp
  define e where "e = bit_length n - 24"
  have e: "1 \<le> e" "e \<le> 16" using bl bu by (simp_all add: e_def)
  have "(2::nat) ^ e dvd 2 ^ 16" using e by (intro le_imp_power_dvd)
  moreover have "(2::nat) ^ 16 dvd n" using assms(1) by (simp add: dvd_eq_mod_eq_0)
  ultimately have dv: "2 ^ e dvd n" by (rule dvd_trans)
  then have m: "n mod 2 ^ e = 0" by (simp add: dvd_eq_mod_eq_0)
  have d: "n div 2 ^ e * 2 ^ e = n" using dv by simp
  show ?thesis using False m d
    unfolding float_of_size_t_def Let_def e_def [symmetric] by (simp del: power_numeral)
qed

lemma ratio_check_exact:
  assumes "i mod 65536 = 0" "i \<le> 2 ^ 28"
  shows "float_of_size_t i > 32 * float_of_size_t bits \<longleftrightarrow> 8 * i > 256 * bits"
proof (cases "bits < 2 ^ 24")
  case True
  then show ?thesis
    using float_of_size_t_multiple [OF assms] by (simp add: float_of_size_t_small)
next
  case False
  then have "2 ^ 24 \<le> float_of_size_t bits" by (intro float_of_size_t_large) simp
  then show ?thesis
    using False assms(2) float_of_size_t_multiple [OF assms] by simp
qed

subsection \<open>Failures that \<open>UnpredictICC\<close> never returns\<close>

lemma hard_failure_simps [simp]:
  "hard_failure (Inr y)"
  "e \<noteq> NotEnoughBytes \<Longrightarrow> e \<noteq> CorruptedStream \<Longrightarrow> hard_failure (fail e s)"
  "e \<noteq> NotEnoughBytes \<Longrightarrow> e \<noteq> CorruptedStream \<Longrightarrow> hard_failure (Inl (e, b))"
  by (simp_all add: hard_failure_def fail_def)

lemma hard_failure_bind:
  "hard_failure x \<Longrightarrow> (\<And>y. hard_failure (f y)) \<Longrightarrow>
     hard_failure (case x of Inl e \<Rightarrow> Inl e | Inr y \<Rightarrow> f y)"
  by (cases x) (auto simp: hard_failure_def)

lemma hard_failureD:
  "hard_failure x \<Longrightarrow> x = Inl (NotEnoughBytes, buf) \<Longrightarrow> False"
  "hard_failure x \<Longrightarrow> x = Inl (CorruptedStream, buf) \<Longrightarrow> False"
  by (simp_all add: hard_failure_def)

lemma header_loop_hard: "hard_failure (header_loop c enc osize ce i h s)"
proof (induction c enc osize ce i h s rule: header_loop.induct)
  case (1 c enc osize commands_end i header s)
  show ?case
    using "1.IH" by (subst header_loop.simps) (simp add: Let_def)
qed

lemma tag_select_hard: "hard_failure (tag_select c enc tagcode s)"
  by (simp add: tag_select_def)

lemma tag_start_hard: "hard_failure (tag_start c enc ce command a b s)"
  by (simp add: tag_start_def split: prod.splits)

lemma tag_size_hard: "hard_failure (tag_size c enc ce command a s)"
  by (simp add: tag_size_def split: prod.splits)

lemma tag_extra_hard: "hard_failure (tag_extra c tagcode a b s)"
  by (simp add: tag_extra_def Let_def)

lemma tag_step_hard: "hard_failure (tag_step c enc ce a b s)"
  unfolding tag_step_def Let_def
  by (auto simp: hard_failure_def fail_def split: sum.splits prod.splits if_splits
      dest: hard_failureD [OF tag_select_hard] hard_failureD [OF tag_start_hard]
            hard_failureD [OF tag_size_hard] hard_failureD [OF tag_extra_hard])

lemma tag_loop_hard: "hard_failure (tag_loop c enc osize ce a b s)"
proof (induction c enc osize ce a b s rule: tag_loop.induct)
  case (1 c enc osize commands_end prevtagstart prevtagsize s)
  show ?case
    using "1.IH" tag_step_hard [of c enc commands_end prevtagstart prevtagsize s]
    by (subst tag_loop.simps)
       (auto simp: hard_failure_def fail_def split: sum.splits flow.splits prod.splits)
qed

lemma tag_list_hard: "hard_failure (tag_list c enc osize ce s)"
  by (simp add: tag_list_def Let_def tag_loop_hard split: prod.splits)

lemma command_insert_hard: "hard_failure (command_insert enc ce s)"
  by (simp add: command_insert_def Let_def split: prod.splits)

lemma command_shuffle_hard: "hard_failure (command_shuffle c enc ce cmd s)"
  by (simp add: command_shuffle_def Let_def split: prod.splits)

lemma predict_stride_hard: "hard_failure (predict_stride enc ce flags width s)"
  by (simp add: predict_stride_def split: prod.splits)

lemma predict_data_hard: "hard_failure (predict_data c enc ce width ord stride s)"
  by (simp add: predict_data_def Let_def split: prod.splits)

lemma command_predict_hard: "hard_failure (command_predict c enc ce s)"
  unfolding command_predict_def Let_def
  by (auto simp: hard_failure_def fail_def split: sum.splits prod.splits if_splits
      dest: hard_failureD [OF predict_stride_hard] hard_failureD [OF predict_data_hard])

lemma command_xyz_hard: "hard_failure (command_xyz c enc s)"
  by (simp add: command_xyz_def Let_def)

lemma command_type_hard: "hard_failure (command_type c cmd s)"
  by (simp add: command_type_def)

lemma main_step_hard: "hard_failure (main_step c enc ce s)"
  by (simp add: main_step_def Let_def command_insert_hard command_shuffle_hard
      command_predict_hard command_xyz_hard command_type_hard)

lemma main_loop_hard: "hard_failure (main_loop c enc osize ce s)"
proof (induction c enc osize ce s rule: main_loop.induct)
  case (1 c enc osize commands_end s)
  show ?case
    using "1.IH" main_step_hard [of c enc commands_end s]
    by (subst main_loop.simps)
       (auto simp: hard_failure_def fail_def split: sum.splits)
qed

lemma UnpredictICC_run_hard: "hard_failure (UnpredictICC_run c enc)"
  unfolding UnpredictICC_run_def Let_def
  by (auto simp: hard_failure_def fail_def split: sum.splits prod.splits if_splits flow.splits
      dest: hard_failureD [OF header_loop_hard] hard_failureD [OF tag_list_hard]
            hard_failureD [OF main_loop_hard])


lemma UnpredictICC_not_CorruptedStream: "fst (UnpredictICC c enc res) \<noteq> Inl CorruptedStream"
  using UnpredictICC_run_hard [of c enc]
  by (auto simp: UnpredictICC_def hard_failure_def split: sum.splits prod.splits)

subsection \<open>Runs of the symbol loop\<close>



lemma agree_refl [simp]: "agree k r r"
  by (simp add: agree_def)



lemma length_resize [simp]: "length (resize n xs) = n"
  by (simp add: resize_def)

lemma resize_idem [simp]: "resize n (resize n xs) = resize n xs"
  by (simp add: resize_def)


lemma run_reading_mono:
  "run_reading x br = (v, br') \<Longrightarrow> br_data br' = br_data br \<and> br_pos br \<le> br_pos br'"
proof (induction x arbitrary: br)
  case (Done r)
  then show ?case by simp
next
  case (ReadBits n k)
  from ReadBits.prems
  have "run_reading (k (PeekBits br n)) (SkipBits n br) = (v, br')" by simp
  from ReadBits.IH [OF rangeI this] show ?case by (simp add: SkipBits_def)
qed




lemma process_loop_finish:
  "\<not> icc_i r < icc_enc_size r \<Longrightarrow>
   process_loop P c r ck si br icc = Some (process_finish P c r ck si br icc)"
  by (subst process_loop.simps) simp

lemma process_loop_Inl:
  "icc_i r < icc_enc_size r \<Longrightarrow> checkpoint_block P r ck si br = Inl (e, rx) \<Longrightarrow>
   process_loop P c r ck si br icc = Some (Inl e, rx, br, icc)"
  by (subst process_loop.simps) simp

lemma process_loop_ensure:
  "icc_i r < icc_enc_size r \<Longrightarrow> checkpoint_block P r ck si br = Inr (r1, ck1, si1) \<Longrightarrow>
   \<not> 2 \<le> icc_i r1 \<Longrightarrow>
   process_loop P c r ck si br icc = Some (Inl EnsureFailed, r1, br, icc)"
  by (subst process_loop.simps) simp

lemma process_loop_range:
  "icc_i r < icc_enc_size r \<Longrightarrow> checkpoint_block P r ck si br = Inr (r1, ck1, si1) \<Longrightarrow>
   2 \<le> icc_i r1 \<Longrightarrow> \<not> icc_i r1 < length (icc_decompressed r1) \<Longrightarrow>
   process_loop P c r ck si br icc = None"
  by (subst process_loop.simps) simp

lemma process_loop_step:
  assumes "icc_i r < icc_enc_size r" "checkpoint_block P r ck si br = Inr (r1, ck1, si1)"
    "2 \<le> icc_i r1" "icc_i r1 < length (icc_decompressed r1)"
    "run_reading
       (ReadHybridUint P
          (ICCANSContext P (icc_i r1) (icc_decompressed r1 ! (icc_i r1 - 1))
             (icc_decompressed r1 ! (icc_i r1 - 2)))
          (icc_ans_reader r1)) br = ((v, ans'), br')"
  shows "process_loop P c r ck si br icc =
         process_loop P c
           (r1\<lparr>icc_decompressed := (icc_decompressed r1)[icc_i r1 := word_of_nat v],
               icc_ans_reader := ans', icc_i := icc_i r1 + 1\<rparr>) ck1 si1 br' icc"
  by (subst process_loop.simps) (use assms in simp)


lemma outcome_of_Some [simp]: "outcome_of (Some (st, r, reader, icc)) = Some (st, icc)"
  by (simp add: outcome_of_def)

lemma process_finish_outcome:
  "outcome_of (Some (process_finish P c r ck si br icc)) =
   (case check_and_restore r ck si br of
      Inl (e, r') \<Rightarrow> Some (Inl e, icc)
    | Inr r0 \<Rightarrow>
        if \<not> CheckANSFinalState P (icc_ans_reader r0) then Some (Inl CorruptedICCProfile, icc)
        else Some (UnpredictICC c (icc_decompressed r0) []))"
  by (auto simp: process_finish_def Let_def outcome_of_def split: sum.splits prod.splits)










subsection \<open>The expansion check over a whole run\<close>

lemma checkpoint_block_CorruptedStream:
  "checkpoint_block P r ck si br = Inl (CorruptedStream, rx) \<longleftrightarrow>
     icc_i r mod kMaxCheckpointInterval P = 0 \<and> 0 < icc_i r \<and> AllReadsWithinBounds br
     \<and> icc_i r mod 65536 = 0
     \<and> float_of_size_t (icc_i r)
         > 32 * float_of_size_t (size_t_sub (TotalBitsConsumed br) (icc_used_bits_base r))
     \<and> rx = r\<lparr>icc_bits_to_skip := size_t_sub (TotalBitsConsumed br) (icc_used_bits_base r)\<rparr>"
  by (auto simp: checkpoint_block_def check_and_restore_def save_def)

lemma checkpoint_block_base:
  "checkpoint_block P r ck si br = Inr (r1, ck1, si1) \<Longrightarrow>
   icc_used_bits_base r1 = icc_used_bits_base r"
  by (auto simp: checkpoint_block_def save_def Let_def check_and_restore_def
      split: if_splits)

lemma process_finish_not_CorruptedStream:
  "process_finish P c r ck si br icc \<noteq> (Inl CorruptedStream, r', br', icc')"
  using UnpredictICC_not_CorruptedStream [of c "icc_decompressed r" "[]"]
  by (auto simp: process_finish_def check_and_restore_def Let_def split: prod.splits)

lemma process_loop_CorruptedStream:
  assumes "process_loop P c r ck si br icc = Some (Inl CorruptedStream, r', br', icc')"
    and "icc_enc_size r \<le> 268435456"
    and "icc_used_bits_base r \<le> TotalBitsConsumed br"
  shows "0 < icc_i r' \<and> icc_i r' mod 65536 = 0 \<and> icc_i r \<le> icc_i r'
       \<and> icc_i r' < icc_enc_size r \<and> AllReadsWithinBounds br'
       \<and> 256 * (TotalBitsConsumed br' - icc_used_bits_base r) < 8 * icc_i r'
       \<and> icc' = icc"
  using assms
proof (induction "icc_enc_size r - icc_i r" arbitrary: r ck si br rule: less_induct)
  case less
  note run = less.prems(1) and enc = less.prems(2) and base = less.prems(3)
  show ?case
  proof (cases "icc_i r < icc_enc_size r")
    case False
    from run process_loop_finish [OF False, of P c ck si br icc]
      process_finish_not_CorruptedStream [of P c r ck si br icc r' br' icc']
    show ?thesis by simp
  next
    case True
    show ?thesis
    proof (cases "checkpoint_block P r ck si br")
      case (Inl x)
      obtain e rx where x: "x = (e, rx)" by (cases x)
      from run process_loop_Inl [OF True Inl [unfolded x], of c icc]
      have e: "e = CorruptedStream" "rx = r'" "br' = br" "icc' = icc" by simp_all
      let ?b = "size_t_sub (TotalBitsConsumed br) (icc_used_bits_base r)"
      from Inl [unfolded x e] have f: "0 < icc_i r" "AllReadsWithinBounds br"
          "icc_i r mod 65536 = 0" "float_of_size_t (icc_i r) > 32 * float_of_size_t ?b"
          "r' = r\<lparr>icc_bits_to_skip := ?b\<rparr>"
        unfolding checkpoint_block_CorruptedStream by simp_all
      have b: "?b = TotalBitsConsumed br - icc_used_bits_base r"
        using base by (simp add: size_t_sub_def)
      have i28: "icc_i r \<le> 2 ^ 28" using True enc by simp
      from f(4) have "8 * icc_i r > 256 * ?b"
        unfolding ratio_check_exact [OF f(3) i28] .
      then show ?thesis using f True by (simp add: e b)
    next
      case (Inr y)
      obtain r1 ck1 si1 where y: "y = (r1, ck1, si1)" by (cases y)
      note blk = Inr [unfolded y]
      note f = checkpoint_block_fields [OF blk]
      note fb = checkpoint_block_base [OF blk]
      have two: "2 \<le> icc_i r1"
      proof (rule ccontr)
        assume "\<not> 2 \<le> icc_i r1"
        from run process_loop_ensure [OF True blk this, of c icc] show False by simp
      qed
      have rng: "icc_i r1 < length (icc_decompressed r1)"
      proof (rule ccontr)
        assume "\<not> icc_i r1 < length (icc_decompressed r1)"
        from run process_loop_range [OF True blk two this, of c icc] show False by simp
      qed
      let ?i = "icc_i r1"
      obtain v ans' brn where rd: "run_reading
          (ReadHybridUint P
            (ICCANSContext P ?i (icc_decompressed r1 ! (?i - 1)) (icc_decompressed r1 ! (?i - 2)))
            (icc_ans_reader r1)) br = ((v, ans'), brn)"
        by (metis surj_pair)
      let ?n = "r1\<lparr>icc_decompressed := (icc_decompressed r1)[?i := word_of_nat v],
               icc_ans_reader := ans', icc_i := ?i + 1\<rparr>"
      note mono = run_reading_mono [OF rd]
      have s: "process_loop P c r ck si br icc = process_loop P c ?n ck1 si1 brn icc"
        by (rule process_loop_step [OF True blk two rng rd])
      have run': "process_loop P c ?n ck1 si1 brn icc = Some (Inl CorruptedStream, r', br', icc')"
        using run s by simp
      have enc': "icc_enc_size ?n \<le> 268435456" using enc f by simp
      have base': "icc_used_bits_base ?n \<le> TotalBitsConsumed brn"
        using base mono fb by (simp add: TotalBitsConsumed_def)
      have dec: "icc_enc_size ?n - icc_i ?n < icc_enc_size r - icc_i r" using True f by simp
      from less.hyps [OF dec run' enc' base']
      show ?thesis using f fb by simp
    qed
  qed
qed

text \<open>
  Claim C9. Let the encoded size be at most \<open>2 ^ 28\<close> (\<open>Init\<close> rejects larger ones)
  and the reader stand at or behind \<open>used_bits_base_\<close>. At an index \<open>i_\<close> below the
  encoded size that is a positive multiple of 65536 and of the checkpoint interval, with
  all reads so far inside the input, the float comparison of the source is exact: if
  \<open>i_\<close>, the number of bytes produced, exceeds 256 times the number of bytes consumed (an
  eighth of the bits consumed since \<open>used_bits_base_\<close>), the loop of \<open>Process\<close> fails
  with "Corrupted stream"; otherwise the checkpoint block does not fail and decoding goes
  on. At an index that is not a multiple of 65536 the checkpoint block never fails with
  that error. And whenever the loop, or \<open>Process\<close> itself, returns "Corrupted stream",
  the index it stopped at is a positive multiple of 65536, all reads were inside the
  input, and the index exceeds 256 times the number of bytes consumed: a stream whose
  ratio is at most 256 at those checkpoints is never rejected by this check.
\<close>

theorem Process_expansion_bound:
  assumes "icc_enc_size r \<le> 268435456"
    and "icc_used_bits_base r \<le> TotalBitsConsumed reader"
  shows "(kMaxCheckpointInterval P dvd 65536 \<and> 0 < icc_i r \<and> icc_i r mod 65536 = 0
          \<and> icc_i r < icc_enc_size r \<and> AllReadsWithinBounds reader \<longrightarrow>
            (256 * (TotalBitsConsumed reader - icc_used_bits_base r) < 8 * icc_i r \<longrightarrow>
               (\<exists>r'. process_loop P c r checkpoint saved_i reader icc
                       = Some (Inl CorruptedStream, r', reader, icc)))
          \<and> (8 * icc_i r \<le> 256 * (TotalBitsConsumed reader - icc_used_bits_base r) \<longrightarrow>
               (\<exists>r1. checkpoint_block P r checkpoint saved_i reader
                       = Inr (r1, icc_ans_reader r, icc_i r))))
       \<and> (icc_i r mod 65536 \<noteq> 0 \<longrightarrow>
            (\<forall>rx. checkpoint_block P r checkpoint saved_i reader \<noteq> Inl (CorruptedStream, rx)))
       \<and> (process_loop P c r checkpoint saved_i reader icc
             = Some (Inl CorruptedStream, r', reader', icc') \<longrightarrow>
            0 < icc_i r' \<and> icc_i r' mod 65536 = 0 \<and> icc_i r \<le> icc_i r'
            \<and> icc_i r' < icc_enc_size r \<and> AllReadsWithinBounds reader'
            \<and> 256 * (TotalBitsConsumed reader' - icc_used_bits_base r) < 8 * icc_i r'
            \<and> icc' = icc)
       \<and> (Process P c r reader icc = Some (Inl CorruptedStream, r', reader', icc') \<longrightarrow>
            0 < icc_i r' \<and> icc_i r' mod 65536 = 0 \<and> icc_i r \<le> icc_i r'
            \<and> icc_i r' < icc_enc_size r \<and> AllReadsWithinBounds reader'
            \<and> 256 * (TotalBitsConsumed reader' - icc_used_bits_base r) < 8 * icc_i r'
            \<and> icc' = icc)"
proof (intro conjI impI allI)
  let ?bits = "TotalBitsConsumed reader - icc_used_bits_base r"
  assume h: "kMaxCheckpointInterval P dvd 65536 \<and> 0 < icc_i r \<and> icc_i r mod 65536 = 0
          \<and> icc_i r < icc_enc_size r \<and> AllReadsWithinBounds reader"
  then have "65536 dvd icc_i r" by (simp add: dvd_eq_mod_eq_0)
  with h have "kMaxCheckpointInterval P dvd icc_i r" by (blast intro: dvd_trans)
  then have k: "icc_i r mod kMaxCheckpointInterval P = 0" by (simp add: dvd_eq_mod_eq_0)
  have i28: "icc_i r \<le> 2 ^ 28" using h assms(1) by simp
  have m: "icc_i r mod 65536 = 0" using h by simp
  have sub: "size_t_sub (TotalBitsConsumed reader) (icc_used_bits_base r) = ?bits"
    using assms(2) by (simp add: size_t_sub_def)
  have chk: "float_of_size_t (icc_i r) > 32 * float_of_size_t ?bits \<longleftrightarrow> 8 * icc_i r > 256 * ?bits"
    by (rule ratio_check_exact [OF m i28])
  have blk: "checkpoint_block P r checkpoint saved_i reader =
      (if 8 * icc_i r > 256 * ?bits
       then Inl (CorruptedStream, r\<lparr>icc_bits_to_skip := ?bits\<rparr>)
       else Inr (r\<lparr>icc_bits_to_skip := ?bits,
                    icc_decompressed := resize (min (icc_i r + 0x400) (icc_enc_size r))
                                          (icc_decompressed r)\<rparr>,
                 icc_ans_reader r, icc_i r))"
    using k h chk
    by (simp add: checkpoint_block_def check_and_restore_def save_def sub)
  {
    assume "256 * ?bits < 8 * icc_i r"
    then have "process_loop P c r checkpoint saved_i reader icc
        = Some (Inl CorruptedStream, r\<lparr>icc_bits_to_skip := ?bits\<rparr>, reader, icc)"
      using h by (subst process_loop.simps) (simp add: blk)
    then show "\<exists>r'. process_loop P c r checkpoint saved_i reader icc
                    = Some (Inl CorruptedStream, r', reader, icc)" by blast
  }
  {
    assume "8 * icc_i r \<le> 256 * ?bits"
    then show "\<exists>r1. checkpoint_block P r checkpoint saved_i reader
                    = Inr (r1, icc_ans_reader r, icc_i r)"
      by (simp add: blk)
  }
next
  fix rx
  assume "icc_i r mod 65536 \<noteq> 0"
  then show "checkpoint_block P r checkpoint saved_i reader \<noteq> Inl (CorruptedStream, rx)"
    by (simp add: checkpoint_block_CorruptedStream)
next
  assume run: "process_loop P c r checkpoint saved_i reader icc
             = Some (Inl CorruptedStream, r', reader', icc')"
  note a = process_loop_CorruptedStream [OF run assms]
  show "0 < icc_i r'" "icc_i r' mod 65536 = 0" "icc_i r \<le> icc_i r'"
    "icc_i r' < icc_enc_size r" "AllReadsWithinBounds reader'"
    "256 * (TotalBitsConsumed reader' - icc_used_bits_base r) < 8 * icc_i r'" "icc' = icc"
    using a by blast+
next
  assume "Process P c r reader icc = Some (Inl CorruptedStream, r', reader', icc')"
  then have run: "process_loop P c
      (r\<lparr>icc_bits_to_skip := size_t_sub (TotalBitsConsumed reader) (icc_used_bits_base r)\<rparr>)
      (icc_ans_reader r) (icc_i r) reader icc = Some (Inl CorruptedStream, r', reader', icc')"
    by (simp add: Process_def save_def)
  have "0 < icc_i r' \<and> icc_i r' mod 65536 = 0 \<and> icc_i r \<le> icc_i r'
       \<and> icc_i r' < icc_enc_size r \<and> AllReadsWithinBounds reader'
       \<and> 256 * (TotalBitsConsumed reader' - icc_used_bits_base r) < 8 * icc_i r'
       \<and> icc' = icc"
    using process_loop_CorruptedStream [OF run] assms by simp
  then show "0 < icc_i r'" "icc_i r' mod 65536 = 0" "icc_i r \<le> icc_i r'"
    "icc_i r' < icc_enc_size r" "AllReadsWithinBounds reader'"
    "256 * (TotalBitsConsumed reader' - icc_used_bits_base r) < 8 * icc_i r'" "icc' = icc"
    by blast+
qed

theorem Process_expansion_bound_witness:
  "(\<exists>r'. process_loop byte_reader jxl_icc_common
       \<lparr>icc_enc_size = 70000, icc_i = 65536, icc_bits_to_skip = 0, icc_used_bits_base = 0,
        icc_decompressed = [], icc_ans_reader = 0\<rparr> 0 0
       \<lparr>br_data = replicate 300 0, br_pos = 2040\<rparr> []
     = Some (Inl CorruptedStream, r', \<lparr>br_data = replicate 300 0, br_pos = 2040\<rparr>, []))
   \<and> (\<exists>r1. checkpoint_block byte_reader
       \<lparr>icc_enc_size = 70000, icc_i = 65536, icc_bits_to_skip = 0, icc_used_bits_base = 0,
        icc_decompressed = [], icc_ans_reader = 0\<rparr> 0 0
       \<lparr>br_data = replicate 300 0, br_pos = 2048\<rparr>
     = Inr (r1, 0, 65536))
   \<and> (\<forall>rx. checkpoint_block byte_reader
       \<lparr>icc_enc_size = 70000, icc_i = 512, icc_bits_to_skip = 0, icc_used_bits_base = 0,
        icc_decompressed = [], icc_ans_reader = 0 :: nat\<rparr> 0 0
       \<lparr>br_data = replicate 300 0, br_pos = 8\<rparr>
     \<noteq> Inl (CorruptedStream, rx))
   \<and> Process byte_reader jxl_icc_common
       \<lparr>icc_enc_size = 70000, icc_i = 65536, icc_bits_to_skip = 0, icc_used_bits_base = 0,
        icc_decompressed = [], icc_ans_reader = 0\<rparr>
       \<lparr>br_data = replicate 300 0, br_pos = 2040\<rparr> []
     = Some (Inl CorruptedStream,
         \<lparr>icc_enc_size = 70000, icc_i = 65536, icc_bits_to_skip = 2040, icc_used_bits_base = 0,
          icc_decompressed = [], icc_ans_reader = 0\<rparr>,
         \<lparr>br_data = replicate 300 0, br_pos = 2040\<rparr>, [])
   \<and> 256 * (2040 - 0) < 8 * (65536 :: nat)"
proof -
  let ?r = "\<lparr>icc_enc_size = 70000, icc_i = 65536, icc_bits_to_skip = 0, icc_used_bits_base = 0,
        icc_decompressed = [], icc_ans_reader = 0 :: nat\<rparr>"
  let ?r' = "\<lparr>icc_enc_size = 70000, icc_i = 65536, icc_bits_to_skip = 2040, icc_used_bits_base = 0,
        icc_decompressed = [], icc_ans_reader = 0 :: nat\<rparr>"
  let ?q = "\<lparr>icc_enc_size = 70000, icc_i = 512, icc_bits_to_skip = 0, icc_used_bits_base = 0,
        icc_decompressed = [], icc_ans_reader = 0 :: nat\<rparr>"
  let ?b0 = "\<lparr>br_data = replicate 300 0, br_pos = 8\<rparr>"
  let ?b1 = "\<lparr>br_data = replicate 300 0, br_pos = 2040\<rparr>"
  let ?b2 = "\<lparr>br_data = replicate 300 0, br_pos = 2048\<rparr>"
  have w: "AllReadsWithinBounds ?b1" "AllReadsWithinBounds ?b2"
    by (simp_all add: AllReadsWithinBounds_def TotalBitsConsumed_def)
  have p: "Process byte_reader jxl_icc_common ?r ?b1 [] = Some (Inl CorruptedStream, ?r', ?b1, [])"
    by (simp add: Process_def save_def process_loop.simps checkpoint_block_def
        check_and_restore_def byte_reader_def size_t_sub_def TotalBitsConsumed_def
        AllReadsWithinBounds_def float_of_size_t_def)
  from Process_expansion_bound [where P = byte_reader and r = ?r and reader = ?b1
      and c = jxl_icc_common and checkpoint = 0 and saved_i = 0 and icc = "[]"
      and r' = ?r' and reader' = ?b1 and icc' = "[]"]
    Process_expansion_bound [where P = byte_reader and r = ?r and reader = ?b2
      and c = jxl_icc_common and checkpoint = 0 and saved_i = 0 and icc = "[]"]
    Process_expansion_bound [where P = byte_reader and r = ?q and reader = ?b0
      and c = jxl_icc_common and checkpoint = 0 and saved_i = 0 and icc = "[]"]
    w p
  show ?thesis by (simp add: TotalBitsConsumed_def byte_reader_def)
qed

subsection \<open>Resuming after a truncated input\<close>










end
